theory Spec2Isabelle
  imports Complex_Main "HOL-Library.Word"
begin

unbundle bit_operations_syntax

section \<open>Ring buffer (ring_buffer.h)\<close>

text \<open>
  \<^verbatim>\<open>LockFreeRingBuffer<T, Size>\<close>: the storage \<^verbatim>\<open>std::array<T, Size> buffer_\<close> is a
  function from index to element, the two indices \<^verbatim>\<open>head_\<close> and \<^verbatim>\<open>tail_\<close> are
  \<^verbatim>\<open>size_t\<close> values that always stay below \<^verbatim>\<open>Size\<close>. The members are named as in the
  source without the trailing underscore. The template parameter \<^verbatim>\<open>Size\<close> is the first
  argument of every operation; \<^verbatim>\<open>MASK\<close> is \<^verbatim>\<open>Size - 1\<close>. The operations are modelled
  for calls that follow each other (one producer, one consumer, no interleaving inside
  a call), so the atomic loads and stores are plain reads and writes.
\<close>

record 'a LockFreeRingBuffer =
  buffer :: "nat \<Rightarrow> 'a"
  head :: nat
  tail :: nat

definition static_assert_Size :: "nat \<Rightarrow> bool" where
  "static_assert_Size Size = (0 < Size \<and> Size AND (Size - 1) = 0)"

definition MASK :: "nat \<Rightarrow> nat" where
  "MASK Size = Size - 1"

definition LockFreeRingBuffer_ctor :: "(nat \<Rightarrow> 'a) \<Rightarrow> 'a LockFreeRingBuffer" where
  "LockFreeRingBuffer_ctor storage = \<lparr>buffer = storage, head = 0, tail = 0\<rparr>"

definition try_push :: "nat \<Rightarrow> 'a \<Rightarrow> 'a LockFreeRingBuffer \<Rightarrow> bool \<times> 'a LockFreeRingBuffer" where
  "try_push Size item r =
     (let current_tail = tail r;
          next_tail = (current_tail + 1) AND MASK Size
      in if next_tail = head r then (False, r)
         else (True, r\<lparr>buffer := (buffer r)(current_tail := item), tail := next_tail\<rparr>))"

definition try_pop :: "nat \<Rightarrow> 'a LockFreeRingBuffer \<Rightarrow> 'a option \<times> 'a LockFreeRingBuffer" where
  "try_pop Size r =
     (let current_head = head r
      in if current_head = tail r then (None, r)
         else (Some (buffer r current_head), r\<lparr>head := (current_head + 1) AND MASK Size\<rparr>))"

definition empty :: "'a LockFreeRingBuffer \<Rightarrow> bool" where
  "empty r = (head r = tail r)"

definition full :: "nat \<Rightarrow> 'a LockFreeRingBuffer \<Rightarrow> bool" where
  "full Size r = ((tail r + 1) AND MASK Size = head r)"

definition size_rb :: "nat \<Rightarrow> 'a LockFreeRingBuffer \<Rightarrow> nat" where
  "size_rb Size r = (if tail r \<ge> head r then tail r - head r else Size - head r + tail r)"

text \<open>A run of consecutive \<^verbatim>\<open>try_push\<close> calls, one per item, with the result of each.\<close>

fun push_all :: "nat \<Rightarrow> 'a list \<Rightarrow> 'a LockFreeRingBuffer \<Rightarrow> bool list \<times> 'a LockFreeRingBuffer" where
  "push_all Size [] r = ([], r)"
| "push_all Size (x # xs) r =
     (case try_push Size x r of
        (ok, r') \<Rightarrow> (case push_all Size xs r' of (oks, r'') \<Rightarrow> (ok # oks, r'')))"

section \<open>Order entity (order.h)\<close>

datatype OrderSide = BUY | SELL

datatype OrderType = MARKET | LIMIT | STOP | STOP_LIMIT

datatype OrderStatus = PENDING | PARTIALLY_FILLED | FILLED | CANCELLED | REJECTED

type_synonym uint64_t = "64 word"

text \<open>
  A \<^verbatim>\<open>time_point\<close> is a tick count of the clock. A \<^verbatim>\<open>double\<close> is modelled by a real
  number, the data model of the specification ("price: positive real"): rounding, infinities
  and NaN are outside the model.
\<close>

type_synonym time_point = nat

record Order =
  order_id :: uint64_t
  client_id :: uint64_t
  symbol :: string
  side :: OrderSide
  type :: OrderType
  quantity :: uint64_t
  filled_quantity :: uint64_t
  price :: real
  stop_price :: real
  timestamp :: time_point
  status :: OrderStatus

text \<open>
  The seven-argument constructor. It reads the clock itself
  (\<^verbatim>\<open>timestamp(std::chrono::high_resolution_clock::now())\<close>); the value read is the last
  argument here.
\<close>

definition Order_ctor ::
  "uint64_t \<Rightarrow> uint64_t \<Rightarrow> string \<Rightarrow> OrderSide \<Rightarrow> OrderType \<Rightarrow> uint64_t \<Rightarrow> real \<Rightarrow> time_point \<Rightarrow> Order"
where
  "Order_ctor oid client symb s t qty prc now =
     \<lparr>order_id = oid, client_id = client, symbol = symb, side = s, type = t,
      quantity = qty, filled_quantity = 0, price = prc, stop_price = 0,
      timestamp = now, status = PENDING\<rparr>"

definition is_filled :: "Order \<Rightarrow> bool" where
  "is_filled ord = (filled_quantity ord \<ge> quantity ord)"

definition is_partially_filled :: "Order \<Rightarrow> bool" where
  "is_partially_filled ord = (filled_quantity ord > 0 \<and> filled_quantity ord < quantity ord)"

definition remaining_quantity :: "Order \<Rightarrow> uint64_t" where
  "remaining_quantity ord = quantity ord - filled_quantity ord"

section \<open>Trade records (market_data.h)\<close>

datatype MarketDataType = TRADE | QUOTE | ORDER_BOOK_UPDATE | TICK

text \<open>
  Of \<^verbatim>\<open>struct MarketData\<close> the fields that \<^verbatim>\<open>OrderBook::record_trade\<close> writes are kept
  (the others keep the defaults of the default constructor); the wall-clock timestamp of a
  trade, which no operation of the book reads, is left out.
\<close>

record MarketData =
  md_symbol :: string
  md_type :: MarketDataType
  trade_price :: real
  trade_quantity :: uint64_t
  trade_id :: uint64_t

section \<open>Order book (order_book.h, order_book.cpp)\<close>

text \<open>
  Orders are shared: the book, the ring and the client hold \<^verbatim>\<open>std::shared_ptr<Order>\<close> to
  one object, and the book writes through the pointer. So an order is an address into a
  store of \<^verbatim>\<open>Order\<close> objects, a null pointer is \<open>None\<close>, and every operation takes the
  store and returns it updated. Only the operations of the book write to the store, and
  each public operation runs under the exclusive lock of the book, so it is one step.

  A price ladder \<^verbatim>\<open>std::map<double, std::vector<std::shared_ptr<Order>>, Compare>\<close> is the
  list of its (key, level) pairs in iteration order, so \<^verbatim>\<open>begin()\<close> is the head of the list.
  \<^verbatim>\<open>orders_by_id_\<close> is an unordered map and is only looked up, never iterated: a HOL map.
  The members are named as in the source without the trailing underscore; \<^verbatim>\<open>symbol_\<close> is
  \<open>book_symbol\<close>. \<open>all_trades\<close> is a history variable that is not in the source: the list
  of every trade \<^verbatim>\<open>record_trade\<close> has built, which no operation reads.
\<close>

type_synonym addr = nat

type_synonym store = "addr \<Rightarrow> Order"

type_synonym price_levels = "(real \<times> addr list) list"

text \<open>The counters \<^verbatim>\<open>size_t total_orders_, total_trades_\<close> are 64-bit and wrap around.\<close>

record OrderBook =
  book_symbol :: string
  bids :: price_levels
  asks :: price_levels
  orders_by_id :: "uint64_t \<rightharpoonup> addr"
  recent_trades :: "MarketData list"
  total_orders :: uint64_t
  total_trades :: uint64_t
  total_volume :: real
  all_trades :: "MarketData list"

definition MAX_TRADES_HISTORY :: nat where
  "MAX_TRADES_HISTORY = 1000"

definition OrderBook_ctor :: "string \<Rightarrow> OrderBook" where
  "OrderBook_ctor symb =
     \<lparr>book_symbol = symb, bids = [], asks = [], orders_by_id = Map.empty, recent_trades = [],
      total_orders = 0, total_trades = 0, total_volume = 0, all_trades = []\<rparr>"

subsection \<open>Price levels\<close>

text \<open>
  \<^verbatim>\<open>auto& level = m[key]; level = f(level)\<close> on a \<^verbatim>\<open>std::map\<close> with comparator \<open>cmp\<close>:
  \<^verbatim>\<open>operator[]\<close> finds the entry of the key or inserts an empty level at the key's place.
\<close>

fun map_subscript ::
  "(real \<Rightarrow> real \<Rightarrow> bool) \<Rightarrow> real \<Rightarrow> (addr list \<Rightarrow> addr list) \<Rightarrow> price_levels \<Rightarrow> price_levels"
where
  "map_subscript cmp k f [] = [(k, f [])]"
| "map_subscript cmp k f ((k', v) # m) =
     (if cmp k k' then (k, f []) # (k', v) # m
      else if cmp k' k then (k', v) # map_subscript cmp k f m
      else (k', f v) # m)"

text \<open>\<^verbatim>\<open>auto it = m.find(key); if (it == m.end()) return; it->second = f(it->second)\<close>.\<close>

fun map_find_apply :: "real \<Rightarrow> (addr list \<Rightarrow> addr list) \<Rightarrow> price_levels \<Rightarrow> price_levels" where
  "map_find_apply k f [] = []"
| "map_find_apply k f ((k', v) # m) =
     (if k' = k then (k', f v) # m else (k', v) # map_find_apply k f m)"

text \<open>
  \<^verbatim>\<open>push_back\<close>, then \<^verbatim>\<open>std::sort\<close> of the level by timestamp. \<^verbatim>\<open>std::sort\<close> leaves the
  order of orders with equal timestamps open; the model keeps them in their previous order.
\<close>

definition push_back_sort :: "store \<Rightarrow> addr \<Rightarrow> addr list \<Rightarrow> addr list" where
  "push_back_sort h a level = sort_key (\<lambda>x. timestamp (h x)) (level @ [a])"

definition add_to_bid_level :: "store \<Rightarrow> real \<Rightarrow> addr \<Rightarrow> OrderBook \<Rightarrow> OrderBook" where
  "add_to_bid_level h prc a b = b\<lparr>bids := map_subscript (>) prc (push_back_sort h a) (bids b)\<rparr>"

definition add_to_ask_level :: "store \<Rightarrow> real \<Rightarrow> addr \<Rightarrow> OrderBook \<Rightarrow> OrderBook" where
  "add_to_ask_level h prc a b = b\<lparr>asks := map_subscript (<) prc (push_back_sort h a) (asks b)\<rparr>"

definition remove_from_bid_level :: "store \<Rightarrow> real \<Rightarrow> uint64_t \<Rightarrow> OrderBook \<Rightarrow> OrderBook" where
  "remove_from_bid_level h prc oid b =
     b\<lparr>bids := map_find_apply prc (filter (\<lambda>x. order_id (h x) \<noteq> oid)) (bids b)\<rparr>"

definition remove_from_ask_level :: "store \<Rightarrow> real \<Rightarrow> uint64_t \<Rightarrow> OrderBook \<Rightarrow> OrderBook" where
  "remove_from_ask_level h prc oid b =
     b\<lparr>asks := map_find_apply prc (filter (\<lambda>x. order_id (h x) \<noteq> oid)) (asks b)\<rparr>"

definition cleanup_empty_levels :: "OrderBook \<Rightarrow> OrderBook" where
  "cleanup_empty_levels b =
     b\<lparr>bids := filter (\<lambda>kv. snd kv \<noteq> []) (bids b), asks := filter (\<lambda>kv. snd kv \<noteq> []) (asks b)\<rparr>"

subsection \<open>Trades and matching\<close>

text \<open>\<^verbatim>\<open>record_trade\<close> does not read its two order arguments; they are left out.\<close>

definition record_trade :: "real \<Rightarrow> uint64_t \<Rightarrow> OrderBook \<Rightarrow> OrderBook" where
  "record_trade prc qty b =
     (let trade = \<lparr>md_symbol = book_symbol b, md_type = TRADE, trade_price = prc,
                   trade_quantity = qty, trade_id = total_trades b + 1\<rparr>;
          pushed = recent_trades b @ [trade];
          kept = (if length pushed > MAX_TRADES_HISTORY then tl pushed else pushed)
      in b\<lparr>recent_trades := kept,
           total_trades := total_trades b + 1,
           total_volume := total_volume b + prc * real (unat qty),
           all_trades := all_trades b @ [trade]\<rparr>)"

text \<open>
  One pass through the body of the \<^verbatim>\<open>while\<close> loop of \<^verbatim>\<open>match_orders\<close>: \<open>None\<close> when the
  loop condition fails or a \<^verbatim>\<open>break\<close> is taken, the state after the body otherwise.
\<close>

definition match_step :: "store \<times> OrderBook \<Rightarrow> (store \<times> OrderBook) option" where
  "match_step s =
     (case s of (h, b) \<Rightarrow>
      (case bids b of [] \<Rightarrow> None | (best_bid, best_bids) # bids_rest \<Rightarrow>
      (case asks b of [] \<Rightarrow> None | (best_ask, best_asks) # asks_rest \<Rightarrow>
         if best_bid < best_ask then None
         else
      (case best_bids of [] \<Rightarrow> None | buy_order # bids_tail \<Rightarrow>
      (case best_asks of [] \<Rightarrow> None | sell_order # asks_tail \<Rightarrow>
         Some (
         let match_price = (best_bid + best_ask) / 2;
             match_quantity = min (remaining_quantity (h buy_order))
                                  (remaining_quantity (h sell_order));
             b1 = record_trade match_price match_quantity b;
             h1 = h(buy_order := (h buy_order)
                    \<lparr>filled_quantity := filled_quantity (h buy_order) + match_quantity\<rparr>);
             h2 = h1(sell_order := (h1 sell_order)
                    \<lparr>filled_quantity := filled_quantity (h1 sell_order) + match_quantity\<rparr>);
             buy_filled = is_filled (h2 buy_order);
             best_bids1 = (if buy_filled then bids_tail else best_bids);
             b2 = (if buy_filled
                   then b1\<lparr>orders_by_id := (orders_by_id b1)(order_id (h2 buy_order) := None),
                           total_orders := total_orders b1 - 1\<rparr>
                   else b1);
             sell_filled = is_filled (h2 sell_order);
             best_asks1 = (if sell_filled then asks_tail else best_asks);
             b3 = (if sell_filled
                   then b2\<lparr>orders_by_id := (orders_by_id b2)(order_id (h2 sell_order) := None),
                           total_orders := total_orders b2 - 1\<rparr>
                   else b2);
             bids1 = (if best_bids1 = [] then bids_rest else (best_bid, best_bids1) # bids_rest);
             asks1 = (if best_asks1 = [] then asks_rest else (best_ask, best_asks1) # asks_rest)
         in (h2, b3\<lparr>bids := bids1, asks := asks1\<rparr>)))))))"

text \<open>
  The loop itself. It need not end in a state where one order object stands at the head of
  both ladders, so it is a partial function: \<open>None\<close> means that the loop runs forever.
\<close>

partial_function (option) match_orders :: "store \<times> OrderBook \<Rightarrow> (store \<times> OrderBook) option" where
  "match_orders s = (case match_step s of None \<Rightarrow> Some s | Some s' \<Rightarrow> match_orders s')"

definition process_market_order :: "addr \<Rightarrow> store \<times> OrderBook \<Rightarrow> (store \<times> OrderBook) option" where
  "process_market_order a s = match_orders s"

definition process_limit_order :: "addr \<Rightarrow> store \<times> OrderBook \<Rightarrow> (store \<times> OrderBook) option" where
  "process_limit_order a s = match_orders s"

subsection \<open>Public operations\<close>

definition add_order :: "addr option \<Rightarrow> store \<times> OrderBook \<Rightarrow> (bool \<times> store \<times> OrderBook) option" where
  "add_order order s =
     (case s of (h, b) \<Rightarrow>
      (case order of None \<Rightarrow> Some (False, h, b) | Some a \<Rightarrow>
         if symbol (h a) \<noteq> book_symbol b then Some (False, h, b)
         else if orders_by_id b (order_id (h a)) \<noteq> None then Some (False, h, b)
         else
           let b1 = b\<lparr>orders_by_id := (orders_by_id b)(order_id (h a) \<mapsto> a)\<rparr>;
               b2 = (if side (h a) = BUY then add_to_bid_level h (price (h a)) a b1
                     else add_to_ask_level h (price (h a)) a b1);
               b3 = b2\<lparr>total_orders := total_orders b2 + 1\<rparr>
           in Option.bind (if type (h a) = MARKET then process_market_order a (h, b3)
                           else process_limit_order a (h, b3))
                (\<lambda>s1. Option.bind (match_orders s1) (\<lambda>s2. Some (True, s2)))))"

definition cancel_order :: "uint64_t \<Rightarrow> store \<times> OrderBook \<Rightarrow> bool \<times> store \<times> OrderBook" where
  "cancel_order oid s =
     (case s of (h, b) \<Rightarrow>
      (case orders_by_id b oid of None \<Rightarrow> (False, h, b) | Some a \<Rightarrow>
         let b1 = (if side (h a) = BUY then remove_from_bid_level h (price (h a)) oid b
                   else remove_from_ask_level h (price (h a)) oid b);
             b2 = b1\<lparr>orders_by_id := (orders_by_id b1)(oid := None)\<rparr>;
             h1 = h(a := (h a)\<lparr>status := CANCELLED\<rparr>);
             b3 = b2\<lparr>total_orders := total_orders b2 - 1\<rparr>
         in (True, h1, cleanup_empty_levels b3)))"

text \<open>\<^verbatim>\<open>modify_order\<close> reads the clock once; the value read is the argument \<open>now\<close>.\<close>

definition modify_order ::
  "uint64_t \<Rightarrow> uint64_t \<Rightarrow> real \<Rightarrow> time_point \<Rightarrow> store \<times> OrderBook \<Rightarrow> (bool \<times> store \<times> OrderBook) option"
where
  "modify_order oid new_quantity new_price now s =
     (case s of (h, b) \<Rightarrow>
      (case orders_by_id b oid of None \<Rightarrow> Some (False, h, b) | Some a \<Rightarrow>
         let b1 = (if side (h a) = BUY then remove_from_bid_level h (price (h a)) oid b
                   else remove_from_ask_level h (price (h a)) oid b);
             h1 = h(a := (h a)\<lparr>quantity := new_quantity, price := new_price, timestamp := now\<rparr>);
             b2 = (if side (h1 a) = BUY then add_to_bid_level h1 (price (h1 a)) a b1
                   else add_to_ask_level h1 (price (h1 a)) a b1)
         in Option.bind (match_orders (h1, b2))
              (\<lambda>s1. case s1 of (h2, b3) \<Rightarrow> Some (True, h2, cleanup_empty_levels b3))))"

definition get_best_bid :: "OrderBook \<Rightarrow> real" where
  "get_best_bid b = (if bids b = [] then 0 else fst (hd (bids b)))"

definition get_best_ask :: "OrderBook \<Rightarrow> real" where
  "get_best_ask b = (if asks b = [] then 0 else fst (hd (asks b)))"

definition get_order_count :: "OrderBook \<Rightarrow> uint64_t" where
  "get_order_count b = total_orders b"

definition get_trade_count :: "OrderBook \<Rightarrow> uint64_t" where
  "get_trade_count b = total_trades b"


subsection \<open>Sequences of operations\<close>

datatype Operation =
    AddOrder "addr option"
  | CancelOrder uint64_t
  | ModifyOrder uint64_t uint64_t real time_point

fun apply_operation :: "Operation \<Rightarrow> store \<times> OrderBook \<Rightarrow> (bool \<times> store \<times> OrderBook) option" where
  "apply_operation (AddOrder order) s = add_order order s"
| "apply_operation (CancelOrder oid) s = Some (cancel_order oid s)"
| "apply_operation (ModifyOrder oid new_quantity new_price now) s =
     modify_order oid new_quantity new_price now s"

fun run :: "Operation list \<Rightarrow> store \<times> OrderBook \<Rightarrow> (store \<times> OrderBook) option" where
  "run [] s = Some s"
| "run (op # ops) s = Option.bind (apply_operation op s) (\<lambda>r. run ops (snd r))"

section \<open>Matching engine (order_matching_engine.h, order_matching_engine.cpp)\<close>

text \<open>
  The counters of \<^verbatim>\<open>struct PerformanceMetrics\<close> are \<^verbatim>\<open>std::atomic<uint64_t>\<close>; every
  access in the engine is a single atomic load, store or \<^verbatim>\<open>fetch_add\<close>.
\<close>

record PerformanceMetrics =
  orders_processed :: uint64_t
  trades_executed :: uint64_t
  market_data_updates :: uint64_t
  total_latency_ns :: uint64_t
  max_latency_ns :: uint64_t
  min_latency_ns :: uint64_t
  orders_per_second :: uint64_t
  trades_per_second :: uint64_t
  market_data_per_second :: uint64_t

definition UINT64_MAX :: uint64_t where
  "UINT64_MAX = - 1"

definition PerformanceMetrics_init :: PerformanceMetrics where
  "PerformanceMetrics_init =
     \<lparr>orders_processed = 0, trades_executed = 0, market_data_updates = 0, total_latency_ns = 0,
      max_latency_ns = 0, min_latency_ns = UINT64_MAX, orders_per_second = 0,
      trades_per_second = 0, market_data_per_second = 0\<rparr>"

definition reset :: "PerformanceMetrics \<Rightarrow> PerformanceMetrics" where
  "reset m = m\<lparr>orders_processed := 0, trades_executed := 0, market_data_updates := 0,
               total_latency_ns := 0, max_latency_ns := 0, min_latency_ns := UINT64_MAX,
               orders_per_second := 0, trades_per_second := 0, market_data_per_second := 0\<rparr>"

text \<open>
  The engine: the flag \<^verbatim>\<open>running_\<close>, the books of the \<^verbatim>\<open>OrderBookManager\<close> by symbol, the
  two rings of capacity 65536 and the metrics. The three \<^verbatim>\<open>static\<close> locals of
  \<^verbatim>\<open>calculate_throughput_metrics\<close> are fields of the state. The TCP server and the market
  data processor are collaborators outside the model: whether they start is the argument of
  \<open>engine_start\<close>, and the callback of a market data item does not touch the engine.
  A call of an operation is one step; the worker threads are the steps
  \<open>process_order_batch\<close>, \<open>process_market_data_batch\<close> and
  \<open>calculate_throughput_metrics\<close>, taken at any point and in any order. The latency that
  \<^verbatim>\<open>submit_order\<close> measures with the clock is an argument.
\<close>

record OrderMatchingEngine =
  running :: bool
  order_books :: "string \<rightharpoonup> OrderBook"
  order_buffer :: "addr LockFreeRingBuffer"
  market_data_buffer :: "MarketData LockFreeRingBuffer"
  metrics :: PerformanceMetrics
  last_orders :: uint64_t
  last_trades :: uint64_t
  last_market_data :: uint64_t

definition BUFFER_SIZE :: nat where
  "BUFFER_SIZE = 65536"

definition OrderMatchingEngine_ctor ::
  "(nat \<Rightarrow> addr) \<Rightarrow> (nat \<Rightarrow> MarketData) \<Rightarrow> OrderMatchingEngine" where
  "OrderMatchingEngine_ctor order_storage market_data_storage =
     \<lparr>running = False, order_books = Map.empty,
      order_buffer = LockFreeRingBuffer_ctor order_storage,
      market_data_buffer = LockFreeRingBuffer_ctor market_data_storage,
      metrics = PerformanceMetrics_init, last_orders = 0, last_trades = 0, last_market_data = 0\<rparr>"

definition get_or_create_order_book ::
  "string \<Rightarrow> (string \<rightharpoonup> OrderBook) \<Rightarrow> OrderBook \<times> (string \<rightharpoonup> OrderBook)" where
  "get_or_create_order_book symb books =
     (case books symb of Some book \<Rightarrow> (book, books)
      | None \<Rightarrow> (OrderBook_ctor symb, books(symb \<mapsto> OrderBook_ctor symb)))"

definition update_performance_metrics :: "uint64_t \<Rightarrow> PerformanceMetrics \<Rightarrow> PerformanceMetrics" where
  "update_performance_metrics latency_ns m =
     m\<lparr>total_latency_ns := total_latency_ns m + latency_ns,
       min_latency_ns := (if latency_ns < min_latency_ns m then latency_ns else min_latency_ns m),
       max_latency_ns := (if latency_ns > max_latency_ns m then latency_ns else max_latency_ns m)\<rparr>"

definition engine_start :: "bool \<Rightarrow> OrderMatchingEngine \<Rightarrow> bool \<times> OrderMatchingEngine" where
  "engine_start collaborators_started e =
     (if running e then (True, e)
      else if \<not> collaborators_started then (False, e)
      else (True, e\<lparr>running := True\<rparr>))"

definition engine_stop :: "OrderMatchingEngine \<Rightarrow> OrderMatchingEngine" where
  "engine_stop e = (if \<not> running e then e else e\<lparr>running := False\<rparr>)"

definition submit_order :: "addr option \<Rightarrow> uint64_t \<Rightarrow> OrderMatchingEngine \<Rightarrow> bool \<times> OrderMatchingEngine" where
  "submit_order order latency_ns e =
     (case order of None \<Rightarrow> (False, e) | Some a \<Rightarrow>
        if \<not> running e then (False, e)
        else (case try_push BUFFER_SIZE a (order_buffer e) of
                (False, r) \<Rightarrow> (False, e)
              | (True, r) \<Rightarrow>
                  (True, e\<lparr>order_buffer := r,
                           metrics := update_performance_metrics latency_ns (metrics e)\<rparr>)))"

definition submit_market_data :: "MarketData \<Rightarrow> OrderMatchingEngine \<Rightarrow> bool \<times> OrderMatchingEngine" where
  "submit_market_data data e =
     (if \<not> running e then (False, e)
      else (case try_push BUFFER_SIZE data (market_data_buffer e) of
              (False, r) \<Rightarrow> (False, e)
            | (True, r) \<Rightarrow> (True, e\<lparr>market_data_buffer := r\<rparr>)))"

definition engine_cancel_order ::
  "uint64_t \<Rightarrow> string \<Rightarrow> store \<times> OrderMatchingEngine \<Rightarrow> bool \<times> store \<times> OrderMatchingEngine" where
  "engine_cancel_order oid symb s =
     (case s of (h, e) \<Rightarrow>
        if \<not> running e then (False, h, e)
        else (case order_books e symb of None \<Rightarrow> (False, h, e)
              | Some book \<Rightarrow>
                  (case cancel_order oid (h, book) of
                     (ok, h', book') \<Rightarrow> (ok, h', e\<lparr>order_books := (order_books e)(symb \<mapsto> book')\<rparr>))))"

definition engine_modify_order ::
  "uint64_t \<Rightarrow> string \<Rightarrow> uint64_t \<Rightarrow> real \<Rightarrow> time_point \<Rightarrow> store \<times> OrderMatchingEngine
     \<Rightarrow> (bool \<times> store \<times> OrderMatchingEngine) option" where
  "engine_modify_order oid symb new_quantity new_price now s =
     (case s of (h, e) \<Rightarrow>
        if \<not> running e then Some (False, h, e)
        else (case order_books e symb of None \<Rightarrow> Some (False, h, e)
              | Some book \<Rightarrow>
                  (case modify_order oid new_quantity new_price now (h, book) of
                     None \<Rightarrow> None
                   | Some (ok, h', book') \<Rightarrow>
                       Some (ok, h', e\<lparr>order_books := (order_books e)(symb \<mapsto> book')\<rparr>))))"

text \<open>
  \<^verbatim>\<open>while (batch.size() < 100) { if (!buffer->try_pop(item)) break; batch.push_back(item); }\<close>
\<close>

function collect_batch :: "nat \<Rightarrow> 'a list \<Rightarrow> 'a LockFreeRingBuffer \<Rightarrow> 'a list \<times> 'a LockFreeRingBuffer" where
  "collect_batch Size batch r =
     (if length batch < 100
      then (case try_pop Size r of
              (None, r') \<Rightarrow> (batch, r')
            | (Some x, r') \<Rightarrow> collect_batch Size (batch @ [x]) r')
      else (batch, r))"
  by pat_completeness auto

termination
  by (relation "measure (\<lambda>(Size, batch, r). 100 - length batch)") auto

declare collect_batch.simps [simp del]

text \<open>The \<^verbatim>\<open>for\<close> loop of \<^verbatim>\<open>process_order_batch\<close> over the orders collected.\<close>

fun process_orders :: "addr list \<Rightarrow> store \<times> OrderMatchingEngine \<Rightarrow> (store \<times> OrderMatchingEngine) option" where
  "process_orders [] s = Some s"
| "process_orders (a # rest) s =
     (case s of (h, e) \<Rightarrow>
        (case get_or_create_order_book (symbol (h a)) (order_books e) of (book, books) \<Rightarrow>
           (case add_order (Some a) (h, book) of
              None \<Rightarrow> None
            | Some (ok, h', book') \<Rightarrow>
                process_orders rest
                  (h', e\<lparr>order_books := books(symbol (h a) \<mapsto> book'),
                         metrics := (if ok then (metrics e)\<lparr>orders_processed := orders_processed (metrics e) + 1\<rparr>
                                     else metrics e)\<rparr>))))"

definition process_order_batch :: "store \<times> OrderMatchingEngine \<Rightarrow> (store \<times> OrderMatchingEngine) option" where
  "process_order_batch s =
     (case s of (h, e) \<Rightarrow>
        (case collect_batch BUFFER_SIZE [] (order_buffer e) of
           (batch, r) \<Rightarrow> process_orders batch (h, e\<lparr>order_buffer := r\<rparr>)))"

definition process_market_data_batch :: "OrderMatchingEngine \<Rightarrow> OrderMatchingEngine" where
  "process_market_data_batch e =
     (case collect_batch BUFFER_SIZE [] (market_data_buffer e) of
        (batch, r) \<Rightarrow>
          e\<lparr>market_data_buffer := r,
            metrics := fold (\<lambda>data m. m\<lparr>market_data_updates := market_data_updates m + 1\<rparr>)
                         batch (metrics e)\<rparr>)"

definition calculate_throughput_metrics :: "OrderMatchingEngine \<Rightarrow> OrderMatchingEngine" where
  "calculate_throughput_metrics e =
     (let current_orders = orders_processed (metrics e);
          m1 = (metrics e)\<lparr>orders_per_second := current_orders - last_orders e\<rparr>;
          current_trades = trades_executed m1;
          m2 = m1\<lparr>trades_per_second := current_trades - last_trades e\<rparr>;
          current_market_data = market_data_updates m2;
          m3 = m2\<lparr>market_data_per_second := current_market_data - last_market_data e\<rparr>
      in e\<lparr>metrics := m3, last_orders := current_orders, last_trades := current_trades,
           last_market_data := current_market_data\<rparr>)"

definition reset_performance_metrics :: "OrderMatchingEngine \<Rightarrow> OrderMatchingEngine" where
  "reset_performance_metrics e = e\<lparr>metrics := reset (metrics e)\<rparr>"

datatype EngineOperation =
    Start bool
  | Stop
  | SubmitOrder "addr option" uint64_t
  | EngineCancelOrder uint64_t string
  | EngineModifyOrder uint64_t string uint64_t real time_point
  | SubmitMarketData MarketData
  | ProcessOrderBatch
  | ProcessMarketDataBatch
  | CalculateThroughputMetrics
  | ResetPerformanceMetrics

fun engine_step :: "EngineOperation \<Rightarrow> store \<times> OrderMatchingEngine \<Rightarrow> (store \<times> OrderMatchingEngine) option" where
  "engine_step (Start ok) (h, e) = Some (h, snd (engine_start ok e))"
| "engine_step Stop (h, e) = Some (h, engine_stop e)"
| "engine_step (SubmitOrder order latency_ns) (h, e) = Some (h, snd (submit_order order latency_ns e))"
| "engine_step (EngineCancelOrder oid symb) (h, e) = Some (snd (engine_cancel_order oid symb (h, e)))"
| "engine_step (EngineModifyOrder oid symb q p now) (h, e) =
     map_option snd (engine_modify_order oid symb q p now (h, e))"
| "engine_step (SubmitMarketData data) (h, e) = Some (h, snd (submit_market_data data e))"
| "engine_step ProcessOrderBatch (h, e) = process_order_batch (h, e)"
| "engine_step ProcessMarketDataBatch (h, e) = Some (h, process_market_data_batch e)"
| "engine_step CalculateThroughputMetrics (h, e) = Some (h, calculate_throughput_metrics e)"
| "engine_step ResetPerformanceMetrics (h, e) = Some (h, reset_performance_metrics e)"

fun engine_run :: "EngineOperation list \<Rightarrow> store \<times> OrderMatchingEngine \<Rightarrow> (store \<times> OrderMatchingEngine) option" where
  "engine_run [] s = Some s"
| "engine_run (op # ops) s = Option.bind (engine_step op s) (engine_run ops)"

text \<open>The trade counter, the rate derived from it and its last sample are all 0.\<close>

definition counter_idle :: "OrderMatchingEngine \<Rightarrow> bool" where
  "counter_idle e = (trades_executed (metrics e) = 0 \<and> trades_per_second (metrics e) = 0 \<and> last_trades e = 0)"

section \<open>Invariants of the order book\<close>

text \<open>
  The number of entries in the levels of both ladders; every pass of the matching loop that
  starts from orders of different sides lowers it.
\<close>

definition resting_count :: "store \<times> OrderBook \<Rightarrow> nat" where
  "resting_count s = sum_list (map (\<lambda>kv. length (snd kv)) (bids (snd s))) + sum_list (map (\<lambda>kv. length (snd kv)) (asks (snd s)))"

text \<open>
  What \<^verbatim>\<open>std::map\<close> guarantees for the ladders (keys in strict comparator order), and what
  the operations of the book keep: an order stands in the ladder of its side at the level of
  its price, the id-map leads from an id to an order of that id, no level is empty, every
  bid price is below every ask price. Inside \<^verbatim>\<open>modify_order\<close> a level may be empty for a
  while; then its price is still apart from the prices of the other side.
\<close>

definition sorted_levels :: "OrderBook \<Rightarrow> bool" where
  "sorted_levels b = (sorted_wrt (>) (map fst (bids b)) \<and> sorted_wrt (<) (map fst (asks b)))"

definition levels_of_side :: "store \<Rightarrow> OrderSide \<Rightarrow> price_levels \<Rightarrow> bool" where
  "levels_of_side h sd m = (\<forall>kv\<in>set m. \<forall>a\<in>set (snd kv). side (h a) = sd \<and> price (h a) = fst kv)"

definition ids_consistent :: "store \<Rightarrow> OrderBook \<Rightarrow> bool" where
  "ids_consistent h b = (\<forall>oid a. orders_by_id b oid = Some a \<longrightarrow> order_id (h a) = oid)"

definition no_empty_levels :: "OrderBook \<Rightarrow> bool" where
  "no_empty_levels b = ((\<forall>kv\<in>set (bids b). snd kv \<noteq> []) \<and> (\<forall>kv\<in>set (asks b). snd kv \<noteq> []))"

definition separated :: "OrderBook \<Rightarrow> bool" where
  "separated b = (\<forall>p\<in>set (map fst (bids b)). \<forall>q\<in>set (map fst (asks b)). p < q)"

definition empty_separated :: "OrderBook \<Rightarrow> bool" where
  "empty_separated b =
     ((\<forall>kv\<in>set (bids b). snd kv = [] \<longrightarrow> (\<forall>q\<in>set (map fst (asks b)). fst kv < q)) \<and>
      (\<forall>kv\<in>set (asks b). snd kv = [] \<longrightarrow> (\<forall>p\<in>set (map fst (bids b)). p < fst kv)))"

definition match_inv :: "store \<times> OrderBook \<Rightarrow> bool" where
  "match_inv s = (sorted_levels (snd s) \<and> levels_of_side (fst s) BUY (bids (snd s))
      \<and> levels_of_side (fst s) SELL (asks (snd s)) \<and> ids_consistent (fst s) (snd s)
      \<and> empty_separated (snd s))"

definition book_inv :: "store \<times> OrderBook \<Rightarrow> bool" where
  "book_inv s = (match_inv s \<and> no_empty_levels (snd s) \<and> separated (snd s))"

text \<open>What one pass of the loop does to a ladder: the head order may go, and with it the head level.\<close>

definition head_popped :: "price_levels \<Rightarrow> price_levels \<Rightarrow> bool" where
  "head_popped m' m = (m' = m \<or> (\<exists>k a l r. m = (k, a # l) # r \<and> m' = (if l = [] then r else (k, l) # r)))"

text \<open>
  The cumulative volume is the sum over the history variable, and the bounded history is
  its last \<open>MAX_TRADES_HISTORY\<close> entries.
\<close>

definition notional :: "MarketData \<Rightarrow> real" where
  "notional t = trade_price t * real (unat (trade_quantity t))"

definition trades_inv :: "OrderBook \<Rightarrow> bool" where
  "trades_inv b =
     (total_volume b = sum_list (map notional (all_trades b)) \<and>
      recent_trades b = drop (length (all_trades b) - MAX_TRADES_HISTORY) (all_trades b))"

definition reachable_inv :: "store \<times> OrderBook \<Rightarrow> bool" where
  "reachable_inv s = (book_inv s \<and> trades_inv (snd s))"

text \<open>
  Names for the intermediate states of the operations: the book of \<open>add_order\<close> before
  matching, the book of \<open>cancel_order\<close> and \<open>modify_order\<close> after the removal from the level,
  the store and the book of \<open>modify_order\<close> before matching.
\<close>

definition accepted_book :: "store \<Rightarrow> addr \<Rightarrow> OrderBook \<Rightarrow> OrderBook" where
  "accepted_book h a b =
     (let b1 = b\<lparr>orders_by_id := (orders_by_id b)(order_id (h a) \<mapsto> a)\<rparr>;
          b2 = (if side (h a) = BUY then add_to_bid_level h (price (h a)) a b1
                else add_to_ask_level h (price (h a)) a b1)
      in b2\<lparr>total_orders := total_orders b2 + 1\<rparr>)"

definition in_levels :: "addr \<Rightarrow> price_levels \<Rightarrow> bool" where
  "in_levels x m = (\<exists>kv\<in>set m. x \<in> set (snd kv))"

definition removed_book :: "store \<Rightarrow> addr \<Rightarrow> uint64_t \<Rightarrow> OrderBook \<Rightarrow> OrderBook" where
  "removed_book h a oid b =
     (if side (h a) = BUY then remove_from_bid_level h (price (h a)) oid b
      else remove_from_ask_level h (price (h a)) oid b)"

definition modified_store :: "store \<Rightarrow> addr \<Rightarrow> uint64_t \<Rightarrow> real \<Rightarrow> time_point \<Rightarrow> store" where
  "modified_store h a new_quantity new_price now =
     h(a := (h a)\<lparr>quantity := new_quantity, price := new_price, timestamp := now\<rparr>)"

definition reinserted_book :: "store \<Rightarrow> addr \<Rightarrow> OrderBook \<Rightarrow> OrderBook" where
  "reinserted_book h a b =
     (if side (h a) = BUY then add_to_bid_level h (price (h a)) a b
      else add_to_ask_level h (price (h a)) a b)"

text \<open>
  For the books of an engine, which share one store: an operation on a book changes of an
  order only the filled quantity and the status, and on the order it modifies the quantity,
  the price and the timestamp; the orders of a book carry the symbol of the book.
\<close>

definition same_but_filled :: "Order \<Rightarrow> Order \<Rightarrow> bool" where
  "same_but_filled r r' = (r' = r\<lparr>filled_quantity := filled_quantity r'\<rparr>)"

definition book_of_symbol :: "store \<Rightarrow> OrderBook \<Rightarrow> bool" where
  "book_of_symbol h b =
     ((\<forall>x. in_levels x (bids b) \<or> in_levels x (asks b) \<longrightarrow> symbol (h x) = book_symbol b) \<and>
      (\<forall>oid a. orders_by_id b oid = Some a \<longrightarrow> symbol (h a) = book_symbol b))"

definition store_frame :: "string \<Rightarrow> store \<Rightarrow> store \<Rightarrow> bool" where
  "store_frame symb h h' =
     (\<forall>x. order_id (h' x) = order_id (h x) \<and> symbol (h' x) = symbol (h x) \<and> side (h' x) = side (h x)
          \<and> (symbol (h x) \<noteq> symb \<longrightarrow> price (h' x) = price (h x)))"

definition shrunk :: "OrderBook \<Rightarrow> OrderBook \<Rightarrow> bool" where
  "shrunk b b' =
     (book_symbol b' = book_symbol b \<and>
      (\<forall>x. in_levels x (bids b') \<longrightarrow> in_levels x (bids b)) \<and>
      (\<forall>x. in_levels x (asks b') \<longrightarrow> in_levels x (asks b)) \<and>
      (\<forall>oid a. orders_by_id b' oid = Some a \<longrightarrow> orders_by_id b oid = Some a))"

definition books_inv :: "store \<Rightarrow> (string \<rightharpoonup> OrderBook) \<Rightarrow> bool" where
  "books_inv h books =
     (\<forall>symb book. books symb = Some book \<longrightarrow>
        book_symbol book = symb \<and> reachable_inv (h, book) \<and> book_of_symbol h book)"

section \<open>Example inputs\<close>

text \<open>A store of orders for one symbol, as the seven-argument constructor builds them.\<close>

definition example_store :: store where
  "example_store =
     (\<lambda>_. Order_ctor 0 0 [] BUY LIMIT 0 0 0)
       (1 := Order_ctor 1 7 ''AAPL'' BUY LIMIT 100 150 10,
        2 := Order_ctor 2 8 ''AAPL'' SELL LIMIT 100 149 20,
        3 := Order_ctor 3 7 ''AAPL'' BUY MARKET 50 0 30,
        4 := Order_ctor 4 7 ''AAPL'' BUY LIMIT 0 150 40,
        5 := Order_ctor 5 8 ''AAPL'' SELL LIMIT 10 (- 5) 50,
        6 := Order_ctor 6 8 ''AAPL'' SELL LIMIT 60 150 60,
        7 := Order_ctor 7 8 ''AAPL'' SELL LIMIT 10 100 70,
        8 := Order_ctor 8 7 ''AAPL'' BUY MARKET 50 200 80)"

subsection \<open>Reading the result of an operation\<close>

definition accepted :: "(bool \<times> store \<times> OrderBook) option \<Rightarrow> bool option" where
  "accepted res = map_option fst res"

definition order_after :: "addr \<Rightarrow> (bool \<times> store \<times> OrderBook) option \<Rightarrow> Order option" where
  "order_after a res = map_option (\<lambda>r. fst (snd r) a) res"

definition book_after :: "(bool \<times> store \<times> OrderBook) option \<Rightarrow> OrderBook option" where
  "book_after res = map_option (\<lambda>r. snd (snd r)) res"

section \<open>Verification: ring buffer\<close>

subsection \<open>The capacity is a power of two\<close>

lemma static_assert_Size_power:
  assumes "static_assert_Size n"
  shows "\<exists>k. n = 2 ^ k"
  using assms unfolding static_assert_Size_def
proof (induction n rule: less_induct)
  case (less n)
  have rec: "n AND (n - 1) = of_bool (odd n \<and> odd (n - 1)) + 2 * ((n div 2) AND ((n - 1) div 2))"
    by (rule and_rec)
  show ?case
  proof (cases "even n")
    case True
    then obtain m where m: "n = 2 * m" by (elim evenE)
    with less.prems have m0: "0 < m" by simp
    have half: "(n - 1) div 2 = m - 1" using m m0 by (cases m) simp_all
    from rec less.prems True m half have "m AND (m - 1) = 0" by simp
    with less.IH [of m] m m0 obtain k where "m = 2 ^ k" by auto
    with m have "n = 2 ^ Suc k" by simp
    then show ?thesis by blast
  next
    case False
    then obtain m where m: "n = 2 * m + 1" by (elim oddE)
    from rec less.prems False m have "m = 0" by simp
    with m have "n = 2 ^ 0" by simp
    then show ?thesis by blast
  qed
qed

lemma next_index_mod:
  "static_assert_Size Size \<Longrightarrow> Suc t AND MASK Size = Suc t mod Size"
proof -
  assume "static_assert_Size Size"
  then obtain k where k: "Size = 2 ^ k" using static_assert_Size_power by blast
  have "Suc t AND mask k = take_bit k (Suc t)" by (simp only: take_bit_eq_mask)
  then show ?thesis by (simp add: k MASK_def mask_eq_exp_minus_1 take_bit_eq_mod)
qed

lemma buffer_index: "Suc t AND MASK 65536 = Suc t mod 65536"
  by (rule next_index_mod) (simp add: static_assert_Size_def)

lemma try_push_from_empty_head:
  assumes "static_assert_Size Size" "head r = 0" "tail r < Size"
  shows "try_push Size x r =
           (if tail r = Size - 1 then (False, r)
            else (True, r\<lparr>buffer := (buffer r)(tail r := x), tail := tail r + 1\<rparr>))"
proof (cases "tail r = Size - 1")
  case True
  with assms have "(tail r + 1) mod Size = 0" by (simp add: static_assert_Size_def)
  with assms True show ?thesis by (simp add: try_push_def Let_def next_index_mod)
next
  case False
  with assms have "tail r + 1 < Size" by simp
  then have "(tail r + 1) mod Size = tail r + 1" by simp
  with assms False show ?thesis by (simp add: try_push_def Let_def next_index_mod)
qed

lemma push_all_from_empty_head:
  assumes "static_assert_Size Size"
  shows "head r = 0 \<Longrightarrow> tail r < Size \<Longrightarrow>
         fst (push_all Size xs r) =
           replicate (min (length xs) (Size - 1 - tail r)) True
           @ replicate (length xs - (Size - 1 - tail r)) False
         \<and> head (snd (push_all Size xs r)) = 0
         \<and> tail (snd (push_all Size xs r)) = min (tail r + length xs) (Size - 1)"
proof (induction xs arbitrary: r)
  case Nil
  then show ?case by simp
next
  case (Cons x xs)
  show ?case
  proof (cases "tail r = Size - 1")
    case True
    with Cons.prems assms have step: "try_push Size x r = (False, r)"
      by (simp add: try_push_from_empty_head)
    from Cons.IH [OF Cons.prems] True step show ?thesis
      by (simp add: split_beta replicate_Suc [symmetric] del: replicate_Suc)
  next
    case False
    let ?r' = "r\<lparr>buffer := (buffer r)(tail r := x), tail := tail r + 1\<rparr>"
    from False Cons.prems assms have step: "try_push Size x r = (True, ?r')"
      by (simp add: try_push_from_empty_head)
    from False Cons.prems have lt: "tail ?r' < Size" and h0: "head ?r' = 0" by simp_all
    have m: "min (Suc (length xs)) (Size - Suc (tail r))
               = Suc (min (length xs) (Size - Suc (Suc (tail r))))"
      using False Cons.prems by arith
    have d: "Suc (length xs) - (Size - Suc (tail r)) = length xs - (Size - Suc (Suc (tail r)))"
      using False Cons.prems by arith
    from Cons.IH [OF h0 lt] step show ?thesis
      by (simp add: split_beta m d)
  qed
qed

text \<open>
  C8. A ring buffer of capacity \<open>Size\<close> (a positive power of two, as the static assertion of
  the class demands) that starts empty accepts exactly the first \<open>Size - 1\<close> of a run of
  consecutive \<open>try_push\<close> calls and refuses every later one, the \<open>Size\<close>-th included; from
  the \<open>(Size - 1)\<close>-th call on \<open>full\<close> holds, that is \<open>(tail + 1) AND MASK = head\<close>, and
  \<open>tail\<close> never reaches the slot before \<open>head\<close>: one slot stays unused.
\<close>

theorem ring_buffer_push_capacity:
  assumes "static_assert_Size Size"
  shows "fst (push_all Size items (LockFreeRingBuffer_ctor storage)) =
           replicate (min (length items) (Size - 1)) True
           @ replicate (length items - (Size - 1)) False
         \<and> full Size (snd (push_all Size items (LockFreeRingBuffer_ctor storage)))
             = (Size - 1 \<le> length items)
         \<and> size_rb Size (snd (push_all Size items (LockFreeRingBuffer_ctor storage)))
             = min (length items) (Size - 1)"
proof -
  let ?r0 = "LockFreeRingBuffer_ctor storage"
  have h: "head ?r0 = 0" and t: "tail ?r0 < Size"
    using assms by (simp_all add: LockFreeRingBuffer_ctor_def static_assert_Size_def)
  note main = push_all_from_empty_head [OF assms h t, of items]
  have t0: "tail ?r0 = 0" by (simp add: LockFreeRingBuffer_ctor_def)
  from main t0 have res: "fst (push_all Size items ?r0) =
      replicate (min (length items) (Size - 1)) True @ replicate (length items - (Size - 1)) False"
    and hd': "head (snd (push_all Size items ?r0)) = 0"
    and tl': "tail (snd (push_all Size items ?r0)) = min (length items) (Size - 1)"
    by simp_all
  have pos: "0 < Size" using assms by (simp add: static_assert_Size_def)
  have fl: "full Size (snd (push_all Size items ?r0)) = (Size - 1 \<le> length items)"
  proof (cases "Size - 1 \<le> length items")
    case True
    with tl' pos have "(tail (snd (push_all Size items ?r0)) + 1) mod Size = 0" by (simp add: min_def)
    with True hd' assms show ?thesis by (simp add: full_def next_index_mod)
  next
    case False
    with tl' have "tail (snd (push_all Size items ?r0)) + 1 < Size" by simp
    then have "(tail (snd (push_all Size items ?r0)) + 1) mod Size
                 = tail (snd (push_all Size items ?r0)) + 1" by simp
    with False hd' assms show ?thesis by (simp add: full_def next_index_mod)
  qed
  from res fl hd' tl' show ?thesis by (simp add: size_rb_def)
qed

theorem ring_buffer_push_capacity_witness:
  "static_assert_Size 8
   \<and> fst (push_all 8 [1, 2, 3, 4, 5, 6, 7, 8 :: nat] (LockFreeRingBuffer_ctor (\<lambda>_. 0)))
       = [True, True, True, True, True, True, True, False]
   \<and> full 8 (snd (push_all 8 [1, 2, 3, 4, 5, 6, 7, 8 :: nat] (LockFreeRingBuffer_ctor (\<lambda>_. 0))))"
proof -
  have a: "static_assert_Size 8" by (simp add: static_assert_Size_def)
  show ?thesis
    using a ring_buffer_push_capacity [OF a, of "[1, 2, 3, 4, 5, 6, 7, 8 :: nat]" "\<lambda>_. 0"]
    by (simp add: numeral_eq_Suc)
qed

section \<open>Verification: matching loop\<close>

subsection \<open>One pass of the loop\<close>

lemma fill_min_word:
  fixes q f q' f' :: "'a::len word"
  shows "q \<le> f + min (q - f) (q' - f') \<or> q' \<le> f' + min (q - f) (q' - f')"
proof (cases "q - f \<le> q' - f'")
  case True
  then have "f + min (q - f) (q' - f') = q" by (simp add: min_def)
  then show ?thesis by simp
next
  case False
  then have "f' + min (q - f) (q' - f') = q'" by (simp add: min_def)
  then show ?thesis by simp
qed

lemma match_step_None_iff:
  "match_step (h, b) = None \<longleftrightarrow>
     bids b = [] \<or> asks b = [] \<or> fst (hd (bids b)) < fst (hd (asks b))
     \<or> snd (hd (bids b)) = [] \<or> snd (hd (asks b)) = []"
  by (simp add: match_step_def split: list.splits)

lemma match_step_heads:
  assumes "match_step (h, b) = Some s'"
  obtains bb bo bt br ba so st ar where
    "bids b = (bb, bo # bt) # br" "asks b = (ba, so # st) # ar" "ba \<le> bb"
proof -
  from assms have "match_step (h, b) \<noteq> None" by simp
  then have "bids b \<noteq> []" "asks b \<noteq> []" "\<not> fst (hd (bids b)) < fst (hd (asks b))"
    "snd (hd (bids b)) \<noteq> []" "snd (hd (asks b)) \<noteq> []"
    unfolding match_step_None_iff by simp_all
  then show ?thesis
    by (cases "bids b"; cases "asks b"; cases "snd (hd (bids b))"; cases "snd (hd (asks b))")
       (auto intro: that)
qed

text \<open>The state after the body of the loop, with the two head orders named.\<close>

lemma match_step_Some:
  assumes "bids b = (bb, bo # bt) # br" "asks b = (ba, so # st) # ar" "ba \<le> bb"
  shows "match_step (h, b) =
     (let mq = min (remaining_quantity (h bo)) (remaining_quantity (h so));
          b1 = record_trade ((bb + ba) / 2) mq b;
          h1 = h(bo := (h bo)\<lparr>filled_quantity := filled_quantity (h bo) + mq\<rparr>);
          h2 = h1(so := (h1 so)\<lparr>filled_quantity := filled_quantity (h1 so) + mq\<rparr>);
          bf = is_filled (h2 bo);
          sf = is_filled (h2 so);
          ids1 = (if bf then (orders_by_id b)(order_id (h2 bo) := None) else orders_by_id b);
          ids2 = (if sf then ids1(order_id (h2 so) := None) else ids1);
          n1 = (if bf then total_orders b - 1 else total_orders b);
          n2 = (if sf then n1 - 1 else n1)
      in Some (h2, b1\<lparr>bids := (if bf then (if bt = [] then br else (bb, bt) # br) else bids b),
                      asks := (if sf then (if st = [] then ar else (ba, st) # ar) else asks b),
                      orders_by_id := ids2, total_orders := n2\<rparr>))"
  using assms by (simp add: match_step_def Let_def record_trade_def)

lemma match_step_store:
  assumes "match_step (h, b) = Some (h', b')"
  shows "h' x = (h x)\<lparr>filled_quantity := filled_quantity (h' x)\<rparr>"
proof -
  from assms(1) obtain bb bo bt br ba so st ar where
    s: "bids b = (bb, bo # bt) # br" "asks b = (ba, so # st) # ar" "ba \<le> bb"
    by (rule match_step_heads)
  from assms show ?thesis unfolding match_step_Some [OF s] by (auto simp: Let_def)
qed

lemma match_step_shape:
  assumes "match_step (h, b) = Some (h', b')"
  obtains bb bo bt br ba so st ar where
    "bids b = (bb, bo # bt) # br" "asks b = (ba, so # st) # ar" "ba \<le> bb"
    "bids b' = (if is_filled (h' bo) then (if bt = [] then br else (bb, bt) # br) else bids b)"
    "asks b' = (if is_filled (h' so) then (if st = [] then ar else (ba, st) # ar) else asks b)"
    "bo \<noteq> so \<longrightarrow> is_filled (h' bo) \<or> is_filled (h' so)"
proof -
  from assms(1) obtain bb bo bt br ba so st ar where
    s: "bids b = (bb, bo # bt) # br" "asks b = (ba, so # st) # ar" "ba \<le> bb"
    by (rule match_step_heads)
  from assms have b1: "bids b' = (if is_filled (h' bo) then (if bt = [] then br else (bb, bt) # br) else bids b)"
    unfolding match_step_Some [OF s] by (auto simp: Let_def)
  from assms have a1: "asks b' = (if is_filled (h' so) then (if st = [] then ar else (ba, st) # ar) else asks b)"
    unfolding match_step_Some [OF s] by (auto simp: Let_def)
  have f: "bo \<noteq> so \<longrightarrow> is_filled (h' bo) \<or> is_filled (h' so)"
    using assms fill_min_word [of "quantity (h bo)" "filled_quantity (h bo)" "quantity (h so)" "filled_quantity (h so)"]
    unfolding match_step_Some [OF s]
    by (auto simp: Let_def is_filled_def remaining_quantity_def)
  from s b1 a1 f show ?thesis by (rule that)
qed

lemma match_step_ids:
  assumes "match_step (h, b) = Some (h', b')" "orders_by_id b' oid = Some a"
  shows "orders_by_id b oid = Some a"
proof -
  from assms(1) obtain bb bo bt br ba so st ar where
    s: "bids b = (bb, bo # bt) # br" "asks b = (ba, so # st) # ar" "ba \<le> bb"
    by (rule match_step_heads)
  from assms show ?thesis unfolding match_step_Some [OF s]
    by (auto simp: Let_def record_trade_def split: if_splits)
qed

lemma match_step_symbol:
  assumes "match_step (h, b) = Some (h', b')"
  shows "book_symbol b' = book_symbol b"
proof -
  from assms(1) obtain bb bo bt br ba so st ar where
    s: "bids b = (bb, bo # bt) # br" "asks b = (ba, so # st) # ar" "ba \<le> bb"
    by (rule match_step_heads)
  from assms show ?thesis unfolding match_step_Some [OF s]
    by (auto simp: Let_def record_trade_def)
qed

lemma match_step_trade:
  assumes "match_step (h, b) = Some (h', b')"
  shows "\<exists>t. all_trades b' = all_trades b @ [t]
           \<and> trade_price t = (get_best_bid b + get_best_ask b) / 2
           \<and> trade_quantity t = min (remaining_quantity (h (hd (snd (hd (bids b))))))
                                      (remaining_quantity (h (hd (snd (hd (asks b))))))
           \<and> trade_id t = total_trades b + 1
           \<and> total_trades b' = total_trades b + 1
           \<and> total_volume b' = total_volume b + trade_price t * real (unat (trade_quantity t))
           \<and> recent_trades b' = (if length (recent_trades b) \<ge> MAX_TRADES_HISTORY
                                   then tl (recent_trades b @ [t]) else recent_trades b @ [t])"
proof -
  from assms(1) obtain bb bo bt br ba so st ar where
    s: "bids b = (bb, bo # bt) # br" "asks b = (ba, so # st) # ar" "ba \<le> bb"
    by (rule match_step_heads)
  from assms s show ?thesis unfolding match_step_Some [OF s]
    by (auto simp: Let_def record_trade_def get_best_bid_def get_best_ask_def)
qed

subsection \<open>The invariant across one pass\<close>

lemma head_popped_sorted: "head_popped m' m \<Longrightarrow> sorted_wrt R (map fst m) \<Longrightarrow> sorted_wrt R (map fst m')"
  by (auto simp: head_popped_def)

lemma head_popped_keys: "head_popped m' m \<Longrightarrow> set (map fst m') \<subseteq> set (map fst m)"
  by (force simp: head_popped_def split: if_splits)

lemma head_popped_side:
  "head_popped m' m \<Longrightarrow> levels_of_side h sd m \<Longrightarrow>
   (\<And>x. side (h' x) = side (h x) \<and> price (h' x) = price (h x)) \<Longrightarrow> levels_of_side h' sd m'"
  by (auto simp: head_popped_def levels_of_side_def split: if_splits)

lemma head_popped_empty: "head_popped m' m \<Longrightarrow> kv \<in> set m' \<Longrightarrow> snd kv = [] \<Longrightarrow> kv \<in> set m"
  by (auto simp: head_popped_def split: if_splits)

lemma head_popped_no_empty: "head_popped m' m \<Longrightarrow> \<forall>kv\<in>set m. snd kv \<noteq> [] \<Longrightarrow> \<forall>kv\<in>set m'. snd kv \<noteq> []"
  by (auto simp: head_popped_def split: if_splits)

lemma head_popped_size:
  "head_popped m' m \<Longrightarrow> sum_list (map (\<lambda>kv. length (snd kv)) m') \<le> sum_list (map (\<lambda>kv. length (snd kv)) m)"
  by (auto simp: head_popped_def)

lemma match_step_head_popped:
  assumes "match_step (h, b) = Some (h', b')"
  shows "head_popped (bids b') (bids b)" "head_popped (asks b') (asks b)"
proof -
  from assms obtain bb bo bt br ba so st ar where
    "bids b = (bb, bo # bt) # br" "asks b = (ba, so # st) # ar" "ba \<le> bb"
    "bids b' = (if is_filled (h' bo) then (if bt = [] then br else (bb, bt) # br) else bids b)"
    "asks b' = (if is_filled (h' so) then (if st = [] then ar else (ba, st) # ar) else asks b)"
    "bo \<noteq> so \<longrightarrow> is_filled (h' bo) \<or> is_filled (h' so)"
    by (rule match_step_shape)
  then show "head_popped (bids b') (bids b)" "head_popped (asks b') (asks b)"
    by (auto simp: head_popped_def)
qed

lemma match_step_decreases:
  assumes "match_step (h, b) = Some (h', b')"
    and "levels_of_side h BUY (bids b)" "levels_of_side h SELL (asks b)"
  shows "resting_count (h', b') < resting_count (h, b)"
proof -
  from assms(1) obtain bb bo bt br ba so st ar where
    B: "bids b = (bb, bo # bt) # br" and A: "asks b = (ba, so # st) # ar" and "ba \<le> bb"
    and B': "bids b' = (if is_filled (h' bo) then (if bt = [] then br else (bb, bt) # br) else bids b)"
    and A': "asks b' = (if is_filled (h' so) then (if st = [] then ar else (ba, st) # ar) else asks b)"
    and F: "bo \<noteq> so \<longrightarrow> is_filled (h' bo) \<or> is_filled (h' so)"
    by (rule match_step_shape)
  from assms(2,3) B A have "side (h bo) = BUY" "side (h so) = SELL"
    by (auto simp: levels_of_side_def)
  then have "bo \<noteq> so" by auto
  with F have "is_filled (h' bo) \<or> is_filled (h' so)" by simp
  with B A B' A' show ?thesis by (auto simp: resting_count_def)
qed

lemma filled_update_fields:
  assumes "r' = r\<lparr>filled_quantity := v\<rparr>"
  shows "side r' = side r" "price r' = price r" "order_id r' = order_id r"
    "timestamp r' = timestamp r" "status r' = status r" "quantity r' = quantity r"
    "symbol r' = symbol r" "type r' = type r"
  using assms by simp_all

lemma match_step_match_inv:
  assumes st: "match_step (h, b) = Some (h', b')" and inv: "match_inv (h, b)"
  shows "match_inv (h', b')"
proof -
  note pb = match_step_head_popped(1) [OF st] and pa = match_step_head_popped(2) [OF st]
  have same: "\<And>x. side (h' x) = side (h x) \<and> price (h' x) = price (h x)"
    using filled_update_fields(1,2) [OF match_step_store [OF st]] by simp
  have oid: "\<And>x. order_id (h' x) = order_id (h x)"
    by (rule filled_update_fields(3) [OF match_step_store [OF st]])
  from inv have "sorted_levels b'"
    using head_popped_sorted [OF pb] head_popped_sorted [OF pa] by (auto simp: match_inv_def sorted_levels_def)
  moreover from inv have "levels_of_side h' BUY (bids b')" "levels_of_side h' SELL (asks b')"
    using head_popped_side [OF pb _ same] head_popped_side [OF pa _ same] by (auto simp: match_inv_def)
  moreover from inv have "ids_consistent h' b'"
    using match_step_ids [OF st] oid by (auto simp: match_inv_def ids_consistent_def)
  moreover from inv have "empty_separated b'"
    using head_popped_empty [OF pb] head_popped_empty [OF pa] head_popped_keys [OF pb] head_popped_keys [OF pa]
    unfolding match_inv_def empty_separated_def by (simp only: snd_conv fst_conv) blast
  ultimately show ?thesis by (simp add: match_inv_def)
qed

lemma match_step_no_empty:
  "match_step (h, b) = Some (h', b') \<Longrightarrow> no_empty_levels b \<Longrightarrow> no_empty_levels b'"
  using match_step_head_popped [of h b h' b'] head_popped_no_empty
  unfolding no_empty_levels_def by blast

subsection \<open>The loop ends, with the book uncrossed\<close>

lemma match_None_separated:
  assumes "match_step (h, b) = None" "sorted_levels b" "empty_separated b"
  shows "separated b"
proof (cases "bids b")
  case Nil
  then show ?thesis by (simp add: separated_def)
next
  case (Cons x br)
  note B = this
  show ?thesis
  proof (cases "asks b")
    case Nil
    then show ?thesis by (simp add: separated_def)
  next
    case (Cons y ar)
    from assms(2) B Cons have up: "\<forall>p\<in>set (map fst (bids b)). p \<le> fst x"
      and lo: "\<forall>q\<in>set (map fst (asks b)). fst y \<le> q"
      by (auto simp: sorted_levels_def)
    from assms(1) B Cons have "fst x < fst y \<or> snd x = [] \<or> snd y = []"
      by (simp add: match_step_None_iff)
    then have "fst x < fst y"
      using assms(3) B Cons unfolding empty_separated_def by auto
    with up lo show ?thesis unfolding separated_def by fastforce
  qed
qed

text \<open>The loop ends wherever a pass through its body keeps an invariant that puts the two
  head orders on different sides.\<close>

lemma match_orders_total:
  assumes "I s"
    and step: "\<And>s s'. I s \<Longrightarrow> match_step s = Some s' \<Longrightarrow> I s' \<and> resting_count s' < resting_count s"
  shows "\<exists>s'. match_orders s = Some s' \<and> I s' \<and> match_step s' = None"
  using assms(1)
proof (induction "resting_count s" arbitrary: s rule: less_induct)
  case less
  show ?case
  proof (cases "match_step s")
    case None
    then have "match_orders s = Some s" by (subst match_orders.simps) simp
    with None less.prems show ?thesis by simp
  next
    case (Some s1)
    with step [OF less.prems] have "I s1" "resting_count s1 < resting_count s" by simp_all
    from less.hyps [OF this(2) this(1)] obtain s' where
      "match_orders s1 = Some s'" "I s'" "match_step s' = None" by blast
    moreover from Some have "match_orders s = match_orders s1" by (subst match_orders.simps) simp
    ultimately show ?thesis by simp
  qed
qed

lemma match_orders_fixed: "match_step s = None \<Longrightarrow> match_orders s = Some s"
  by (subst match_orders.simps) simp

lemma match_orders_match_inv:
  assumes "match_inv s" "P s"
    and keep: "\<And>s s'. match_inv s \<Longrightarrow> P s \<Longrightarrow> match_step s = Some s' \<Longrightarrow> P s'"
  shows "\<exists>s'. match_orders s = Some s' \<and> match_inv s' \<and> P s' \<and> separated (snd s')
              \<and> match_step s' = None"
proof -
  have "\<exists>s'. match_orders s = Some s' \<and> (match_inv s' \<and> P s') \<and> match_step s' = None"
  proof (rule match_orders_total)
    show "match_inv s \<and> P s" using assms by simp
  next
    fix s s' assume a: "match_inv s \<and> P s" "match_step s = Some s'"
    obtain h b where s: "s = (h, b)" by (cases s)
    obtain h' b' where s': "s' = (h', b')" by (cases s')
    from a s s' have "match_inv s'" by (auto intro: match_step_match_inv)
    moreover from a have "P s'" by (auto intro: keep)
    moreover from a s s' have "resting_count s' < resting_count s"
      by (auto intro!: match_step_decreases simp: match_inv_def)
    ultimately show "(match_inv s' \<and> P s') \<and> resting_count s' < resting_count s" by simp
  qed
  then obtain s' where r: "match_orders s = Some s'" "match_inv s'" "P s'" "match_step s' = None"
    by blast
  obtain h' b' where s': "s' = (h', b')" by (cases s')
  from r s' have "separated b'"
    by (auto intro: match_None_separated simp: match_inv_def)
  with r s' show ?thesis by simp
qed

subsection \<open>Volume and history\<close>

lemma tl_drop_snoc: "n < length xs \<Longrightarrow> tl (drop n xs @ [t]) = drop (Suc n) (xs @ [t])"
proof -
  assume n: "n < length xs"
  then have "drop n xs \<noteq> []" by simp
  then have "tl (drop n xs @ [t]) = tl (drop n xs) @ [t]" by simp
  also have "tl (drop n xs) = drop (Suc n) xs" by (simp add: drop_Suc tl_drop)
  finally show ?thesis using n by simp
qed

lemma match_step_trades_inv:
  assumes "match_step (h, b) = Some (h', b')" "trades_inv b"
  shows "trades_inv b'"
proof -
  from match_step_trade [OF assms(1)] obtain t where t:
    "all_trades b' = all_trades b @ [t]"
    "total_volume b' = total_volume b + trade_price t * real (unat (trade_quantity t))"
    "recent_trades b' = (if length (recent_trades b) \<ge> MAX_TRADES_HISTORY
                          then tl (recent_trades b @ [t]) else recent_trades b @ [t])"
    by blast
  from assms(2) have v: "total_volume b = sum_list (map notional (all_trades b))"
    and r: "recent_trades b = drop (length (all_trades b) - MAX_TRADES_HISTORY) (all_trades b)"
    by (simp_all add: trades_inv_def)
  have "total_volume b' = sum_list (map notional (all_trades b'))"
    using t v by (simp add: notional_def)
  moreover have "recent_trades b' = drop (length (all_trades b') - MAX_TRADES_HISTORY) (all_trades b')"
  proof (cases "length (all_trades b) \<ge> MAX_TRADES_HISTORY")
    case True
    define n where "n = length (all_trades b) - MAX_TRADES_HISTORY"
    from True have n: "n < length (all_trades b)"
      and sn: "length (all_trades b') - MAX_TRADES_HISTORY = Suc n"
      by (simp_all add: n_def t MAX_TRADES_HISTORY_def)
    from True r have "length (recent_trades b) \<ge> MAX_TRADES_HISTORY" by simp
    with t have "recent_trades b' = tl (recent_trades b @ [t])" by simp
    also have "\<dots> = tl (drop n (all_trades b) @ [t])" using r by (simp add: n_def)
    also have "\<dots> = drop (Suc n) (all_trades b @ [t])" using n by (rule tl_drop_snoc)
    finally have "recent_trades b' = drop (Suc n) (all_trades b')" by (simp only: t(1))
    then show ?thesis by (simp only: sn)
  next
    case False
    then have "length (recent_trades b) < MAX_TRADES_HISTORY" using r by simp
    with False t r show ?thesis by simp
  qed
  ultimately show ?thesis by (simp add: trades_inv_def)
qed

subsection \<open>Ladders\<close>

lemma sorted_gt_distinct: "sorted_wrt (>) (xs :: real list) \<Longrightarrow> distinct xs"
  by (induction xs) auto

lemma sorted_lt_distinct: "sorted_wrt (<) (xs :: real list) \<Longrightarrow> distinct xs"
  by (induction xs) auto

lemma map_subscript_keys_gt: "set (map fst (map_subscript (>) k f m)) = insert k (set (map fst m))"
  by (induction m) force+

lemma map_subscript_keys_lt: "set (map fst (map_subscript (<) k f m)) = insert k (set (map fst m))"
  by (induction m) force+

lemma map_subscript_sorted_gt:
  "sorted_wrt (>) (map fst m) \<Longrightarrow> sorted_wrt (>) (map fst (map_subscript (>) k f m))"
proof (induction m)
  case Nil
  then show ?case by simp
next
  case (Cons kv m)
  have "set (map fst (map_subscript (>) k f m)) = insert k (set (map fst m))"
    by (rule map_subscript_keys_gt)
  with Cons show ?case by (cases kv) (auto simp del: set_map)
qed

lemma map_subscript_sorted_lt:
  "sorted_wrt (<) (map fst m) \<Longrightarrow> sorted_wrt (<) (map fst (map_subscript (<) k f m))"
proof (induction m)
  case Nil
  then show ?case by simp
next
  case (Cons kv m)
  have "set (map fst (map_subscript (<) k f m)) = insert k (set (map fst m))"
    by (rule map_subscript_keys_lt)
  with Cons show ?case by (cases kv) (auto simp del: set_map)
qed

lemma map_subscript_entries_gt:
  "kv \<in> set (map_subscript (>) k f m) \<Longrightarrow>
     kv \<in> set m \<or> (fst kv = k \<and> (snd kv = f [] \<or> (\<exists>v. (k, v) \<in> set m \<and> snd kv = f v)))"
  by (induction m) (auto split: if_splits)

lemma map_subscript_entries_lt:
  "kv \<in> set (map_subscript (<) k f m) \<Longrightarrow>
     kv \<in> set m \<or> (fst kv = k \<and> (snd kv = f [] \<or> (\<exists>v. (k, v) \<in> set m \<and> snd kv = f v)))"
  by (induction m) (auto split: if_splits)

lemma push_back_sort_set: "set (push_back_sort h a l) = insert a (set l)"
  by (simp add: push_back_sort_def)

lemma push_back_sort_nonempty: "push_back_sort h a l \<noteq> []"
  using push_back_sort_set [of h a l] by (metis empty_iff insertI1 list.set(1))

lemma map_find_apply_keys: "map fst (map_find_apply k f m) = map fst m"
  by (induction m) auto

lemma map_find_apply_entries:
  "distinct (map fst m) \<Longrightarrow> kv \<in> set (map_find_apply k f m) \<Longrightarrow>
     (fst kv \<noteq> k \<and> kv \<in> set m) \<or> (fst kv = k \<and> (\<exists>v. (k, v) \<in> set m \<and> snd kv = f v))"
  by (induction m) (force split: if_splits)+

lemma sorted_wrt_keys_filter:
  "sorted_wrt R (map fst m) \<Longrightarrow> sorted_wrt R (map fst (filter P m))"
  by (simp add: sorted_wrt_map sorted_wrt_filter)

lemma levels_of_side_cong:
  "(\<And>x. side (h' x) = side (h x) \<and> price (h' x) = price (h x)) \<Longrightarrow>
   levels_of_side h' sd m = levels_of_side h sd m"
  by (simp add: levels_of_side_def)

subsection \<open>Insertion, removal and cleanup\<close>

lemma no_empty_imp_empty_separated: "no_empty_levels b \<Longrightarrow> empty_separated b"
  by (simp add: no_empty_levels_def empty_separated_def)

lemma separated_imp_empty_separated: "separated b \<Longrightarrow> empty_separated b"
  by (auto simp: separated_def empty_separated_def)

lemma cleanup_book_inv:
  assumes "match_inv (h, b)" "separated b"
  shows "book_inv (h, cleanup_empty_levels b)"
proof -
  let ?c = "cleanup_empty_levels b"
  have bs: "set (bids ?c) \<subseteq> set (bids b)" and as: "set (asks ?c) \<subseteq> set (asks b)"
    by (auto simp: cleanup_empty_levels_def)
  have ne: "no_empty_levels ?c" by (simp add: no_empty_levels_def cleanup_empty_levels_def)
  from assms(1) have "sorted_levels ?c"
    by (simp add: match_inv_def sorted_levels_def cleanup_empty_levels_def sorted_wrt_keys_filter)
  moreover from assms(1) bs as have "levels_of_side h BUY (bids ?c)" "levels_of_side h SELL (asks ?c)"
    unfolding match_inv_def levels_of_side_def by auto
  moreover from assms(1) have "ids_consistent h ?c"
    by (simp add: match_inv_def ids_consistent_def cleanup_empty_levels_def)
  moreover from assms(2) bs as have "separated ?c"
    unfolding separated_def by (simp only: set_map) blast
  ultimately show ?thesis using ne
    by (simp add: book_inv_def match_inv_def no_empty_imp_empty_separated)
qed

lemma add_to_bid_level_match_inv:
  assumes inv: "match_inv (h, b)" and ne: "\<forall>kv\<in>set (asks b). snd kv \<noteq> []"
    and a: "side (h a) = BUY"
  shows "match_inv (h, add_to_bid_level h (price (h a)) a b)"
    and "no_empty_levels b \<Longrightarrow> no_empty_levels (add_to_bid_level h (price (h a)) a b)"
proof -
  let ?b = "add_to_bid_level h (price (h a)) a b"
  have asks: "asks ?b = asks b" and ids: "orders_by_id ?b = orders_by_id b"
    and bids: "bids ?b = map_subscript (>) (price (h a)) (push_back_sort h a) (bids b)"
    by (simp_all add: add_to_bid_level_def)
  have ent: "\<And>kv. kv \<in> set (bids ?b) \<Longrightarrow>
      kv \<in> set (bids b) \<or> (fst kv = price (h a) \<and> (snd kv = push_back_sort h a [] \<or>
        (\<exists>v. (price (h a), v) \<in> set (bids b) \<and> snd kv = push_back_sort h a v)))"
    unfolding bids by (rule map_subscript_entries_gt)
  from inv have "sorted_levels ?b"
    by (simp add: match_inv_def sorted_levels_def asks bids map_subscript_sorted_gt)
  moreover have "levels_of_side h BUY (bids ?b)"
    unfolding levels_of_side_def
  proof (intro ballI)
    fix kv x assume kv: "kv \<in> set (bids ?b)" and x: "x \<in> set (snd kv)"
    from inv have l: "levels_of_side h BUY (bids b)" by (simp add: match_inv_def)
    from ent [OF kv] show "side (h x) = BUY \<and> price (h x) = fst kv"
    proof (elim disjE conjE exE)
      assume "kv \<in> set (bids b)"
      with l x show ?thesis by (auto simp: levels_of_side_def)
    next
      assume "fst kv = price (h a)" "snd kv = push_back_sort h a []"
      with x a show ?thesis by (simp add: push_back_sort_set)
    next
      fix v assume "fst kv = price (h a)" "(price (h a), v) \<in> set (bids b)" "snd kv = push_back_sort h a v"
      with x a l show ?thesis by (auto simp: push_back_sort_set levels_of_side_def)
    qed
  qed
  moreover from inv have "levels_of_side h SELL (asks ?b)" by (simp add: match_inv_def asks)
  moreover from inv have "ids_consistent h ?b" by (simp add: match_inv_def ids_consistent_def ids)
  moreover have "empty_separated ?b"
    unfolding empty_separated_def
  proof (intro conjI ballI impI)
    fix kv q assume kv: "kv \<in> set (bids ?b)" "snd kv = []" and q: "q \<in> set (map fst (asks ?b))"
    from ent [OF kv(1)] kv(2) have "kv \<in> set (bids b)" by (auto simp: push_back_sort_nonempty push_back_sort_nonempty [symmetric])
    with inv kv(2) q show "fst kv < q" by (auto simp: match_inv_def empty_separated_def asks)
  next
    fix kv p assume "kv \<in> set (asks ?b)" "snd kv = []"
    with ne show "p < fst kv" by (simp add: asks)
  qed
  ultimately show "match_inv (h, ?b)" by (simp add: match_inv_def)
  show "no_empty_levels b \<Longrightarrow> no_empty_levels ?b"
  proof -
    assume n: "no_empty_levels b"
    have "\<forall>kv\<in>set (bids ?b). snd kv \<noteq> []"
    proof
      fix kv assume "kv \<in> set (bids ?b)"
      from ent [OF this] n show "snd kv \<noteq> []"
        by (auto simp: no_empty_levels_def push_back_sort_nonempty)
    qed
    with n show ?thesis by (simp add: no_empty_levels_def asks)
  qed
qed

lemma add_to_ask_level_match_inv:
  assumes inv: "match_inv (h, b)" and ne: "\<forall>kv\<in>set (bids b). snd kv \<noteq> []"
    and a: "side (h a) = SELL"
  shows "match_inv (h, add_to_ask_level h (price (h a)) a b)"
    and "no_empty_levels b \<Longrightarrow> no_empty_levels (add_to_ask_level h (price (h a)) a b)"
proof -
  let ?b = "add_to_ask_level h (price (h a)) a b"
  have bids: "bids ?b = bids b" and ids: "orders_by_id ?b = orders_by_id b"
    and asks: "asks ?b = map_subscript (<) (price (h a)) (push_back_sort h a) (asks b)"
    by (simp_all add: add_to_ask_level_def)
  have ent: "\<And>kv. kv \<in> set (asks ?b) \<Longrightarrow>
      kv \<in> set (asks b) \<or> (fst kv = price (h a) \<and> (snd kv = push_back_sort h a [] \<or>
        (\<exists>v. (price (h a), v) \<in> set (asks b) \<and> snd kv = push_back_sort h a v)))"
    unfolding asks by (rule map_subscript_entries_lt)
  from inv have "sorted_levels ?b"
    by (simp add: match_inv_def sorted_levels_def asks bids map_subscript_sorted_lt)
  moreover have "levels_of_side h SELL (asks ?b)"
    unfolding levels_of_side_def
  proof (intro ballI)
    fix kv x assume kv: "kv \<in> set (asks ?b)" and x: "x \<in> set (snd kv)"
    from inv have l: "levels_of_side h SELL (asks b)" by (simp add: match_inv_def)
    from ent [OF kv] show "side (h x) = SELL \<and> price (h x) = fst kv"
    proof (elim disjE conjE exE)
      assume "kv \<in> set (asks b)"
      with l x show ?thesis by (auto simp: levels_of_side_def)
    next
      assume "fst kv = price (h a)" "snd kv = push_back_sort h a []"
      with x a show ?thesis by (simp add: push_back_sort_set)
    next
      fix v assume "fst kv = price (h a)" "(price (h a), v) \<in> set (asks b)" "snd kv = push_back_sort h a v"
      with x a l show ?thesis by (auto simp: push_back_sort_set levels_of_side_def)
    qed
  qed
  moreover from inv have "levels_of_side h BUY (bids ?b)" by (simp add: match_inv_def bids)
  moreover from inv have "ids_consistent h ?b" by (simp add: match_inv_def ids_consistent_def ids)
  moreover have "empty_separated ?b"
    unfolding empty_separated_def
  proof (intro conjI ballI impI)
    fix kv p assume kv: "kv \<in> set (asks ?b)" "snd kv = []" and p: "p \<in> set (map fst (bids ?b))"
    from ent [OF kv(1)] kv(2) have "kv \<in> set (asks b)" by (auto simp: push_back_sort_nonempty push_back_sort_nonempty [symmetric])
    with inv kv(2) p show "p < fst kv" by (auto simp: match_inv_def empty_separated_def bids)
  next
    fix kv q assume "kv \<in> set (bids ?b)" "snd kv = []"
    with ne show "fst kv < q" by (simp add: bids)
  qed
  ultimately show "match_inv (h, ?b)" by (simp add: match_inv_def)
  show "no_empty_levels b \<Longrightarrow> no_empty_levels ?b"
  proof -
    assume n: "no_empty_levels b"
    have "\<forall>kv\<in>set (asks ?b). snd kv \<noteq> []"
    proof
      fix kv assume "kv \<in> set (asks ?b)"
      from ent [OF this] n show "snd kv \<noteq> []"
        by (auto simp: no_empty_levels_def push_back_sort_nonempty)
    qed
    with n show ?thesis by (simp add: no_empty_levels_def bids)
  qed
qed

lemma side_cases: "side x \<noteq> BUY \<Longrightarrow> side x = SELL"
  by (cases "side x") simp_all

lemma map_find_apply_filter_sub:
  "kv \<in> set (map_find_apply k (filter P) m) \<Longrightarrow> \<exists>v. (fst kv, v) \<in> set m \<and> set (snd kv) \<subseteq> set v"
proof (induction m)
  case Nil
  then show ?case by simp
next
  case (Cons e m)
  obtain k' v' where e: "e = (k', v')" by (cases e)
  show ?case
  proof (cases "k' = k")
    case True
    with Cons.prems e have "kv = (k', filter P v') \<or> kv \<in> set m" by simp
    then show ?thesis
    proof
      assume "kv = (k', filter P v')"
      then have "(fst kv, v') \<in> set (e # m)" "set (snd kv) \<subseteq> set v'" using e by simp_all
      then show ?thesis by blast
    next
      assume "kv \<in> set m"
      then have "(fst kv, snd kv) \<in> set (e # m)" by simp
      then show ?thesis by blast
    qed
  next
    case False
    with Cons.prems e have "kv = e \<or> kv \<in> set (map_find_apply k (filter P) m)" by simp
    then show ?thesis
    proof
      assume "kv = e"
      then have "(fst kv, snd kv) \<in> set (e # m)" by simp
      then show ?thesis by blast
    next
      assume "kv \<in> set (map_find_apply k (filter P) m)"
      from Cons.IH [OF this] obtain v where "(fst kv, v) \<in> set m" "set (snd kv) \<subseteq> set v" by blast
      then have "(fst kv, v) \<in> set (e # m)" by simp
      with \<open>set (snd kv) \<subseteq> set v\<close> show ?thesis by blast
    qed
  qed
qed

lemma map_find_apply_filter_gone:
  "distinct (map fst m) \<Longrightarrow> kv \<in> set (map_find_apply k (filter P) m) \<Longrightarrow> fst kv = k \<Longrightarrow>
   x \<in> set (snd kv) \<Longrightarrow> P x"
  using map_find_apply_entries [of m kv k "filter P"] by auto

lemma match_inv_total_orders [simp]: "match_inv (h, b\<lparr>total_orders := n\<rparr>) = match_inv (h, b)"
  by (simp add: match_inv_def sorted_levels_def ids_consistent_def empty_separated_def)

lemma no_empty_levels_total_orders [simp]: "no_empty_levels (b\<lparr>total_orders := n\<rparr>) = no_empty_levels b"
  by (simp add: no_empty_levels_def)

lemma trades_inv_total_orders [simp]: "trades_inv (b\<lparr>total_orders := n\<rparr>) = trades_inv b"
  by (simp add: trades_inv_def)

lemma trades_inv_ids [simp]: "trades_inv (b\<lparr>orders_by_id := m\<rparr>) = trades_inv b"
  by (simp add: trades_inv_def)

lemma trades_inv_add_bid [simp]: "trades_inv (add_to_bid_level h p a b) = trades_inv b"
  by (simp add: trades_inv_def add_to_bid_level_def)

lemma trades_inv_add_ask [simp]: "trades_inv (add_to_ask_level h p a b) = trades_inv b"
  by (simp add: trades_inv_def add_to_ask_level_def)

lemma trades_inv_remove_bid [simp]: "trades_inv (remove_from_bid_level h p oid b) = trades_inv b"
  by (simp add: trades_inv_def remove_from_bid_level_def)

lemma trades_inv_remove_ask [simp]: "trades_inv (remove_from_ask_level h p oid b) = trades_inv b"
  by (simp add: trades_inv_def remove_from_ask_level_def)

lemma trades_inv_cleanup [simp]: "trades_inv (cleanup_empty_levels b) = trades_inv b"
  by (simp add: trades_inv_def cleanup_empty_levels_def)

lemma match_orders_from_reachable_inv:
  assumes "match_inv s" "trades_inv (snd s)"
  shows "\<exists>s'. match_orders s = Some s' \<and> match_inv s' \<and> trades_inv (snd s') \<and> separated (snd s')
            \<and> match_step s' = None \<and> (no_empty_levels (snd s) \<longrightarrow> no_empty_levels (snd s'))"
proof -
  let ?P = "\<lambda>t. trades_inv (snd t) \<and> (no_empty_levels (snd s) \<longrightarrow> no_empty_levels (snd t))"
  have "\<exists>s'. match_orders s = Some s' \<and> match_inv s' \<and> ?P s' \<and> separated (snd s')
            \<and> match_step s' = None"
  proof (rule match_orders_match_inv [where P = ?P])
    show "match_inv s" by fact
    show "?P s" using assms by simp
  next
    fix t t' assume a: "match_inv t" "?P t" "match_step t = Some t'"
    obtain h b where t: "t = (h, b)" by (cases t)
    obtain h' b' where t': "t' = (h', b')" by (cases t')
    from a t t' show "?P t'"
      by (auto intro: match_step_trades_inv match_step_no_empty)
  qed
  then show ?thesis by blast
qed

subsection \<open>Adding an order\<close>

lemma add_order_accept:
  assumes "symbol (h a) = book_symbol b" "orders_by_id b (order_id (h a)) = None"
  shows "add_order (Some a) (h, b) =
           Option.bind (match_orders (h, accepted_book h a b))
             (\<lambda>s1. Option.bind (match_orders s1) (\<lambda>s2. Some (True, s2)))"
  using assms
  by (simp add: add_order_def accepted_book_def Let_def process_market_order_def process_limit_order_def)

lemma add_order_reject:
  "symbol (h a) \<noteq> book_symbol b \<or> orders_by_id b (order_id (h a)) \<noteq> None \<Longrightarrow>
   add_order (Some a) (h, b) = Some (False, h, b)"
  by (auto simp: add_order_def)

lemma accepted_book_inv:
  assumes inv: "match_inv (h, b)" and ne: "no_empty_levels b"
  shows "match_inv (h, accepted_book h a b)" "no_empty_levels (accepted_book h a b)"
proof -
  define b1 where "b1 = b\<lparr>orders_by_id := (orders_by_id b)(order_id (h a) \<mapsto> a)\<rparr>"
  from inv have inv1: "match_inv (h, b1)"
    by (simp add: match_inv_def b1_def sorted_levels_def ids_consistent_def empty_separated_def)
  from ne have ne1: "no_empty_levels b1" by (simp add: no_empty_levels_def b1_def)
  from ne1 have nb: "\<forall>kv\<in>set (bids b1). snd kv \<noteq> []" and na: "\<forall>kv\<in>set (asks b1). snd kv \<noteq> []"
    by (simp_all add: no_empty_levels_def)
  show "match_inv (h, accepted_book h a b)"
  proof (cases "side (h a) = BUY")
    case True
    with add_to_bid_level_match_inv(1) [OF inv1 na True] show ?thesis
      by (simp add: accepted_book_def b1_def Let_def)
  next
    case False
    with add_to_ask_level_match_inv(1) [OF inv1 nb side_cases [OF False]] show ?thesis
      by (simp add: accepted_book_def b1_def Let_def)
  qed
  show "no_empty_levels (accepted_book h a b)"
  proof (cases "side (h a) = BUY")
    case True
    with add_to_bid_level_match_inv(2) [OF inv1 na True ne1] show ?thesis
      by (simp add: accepted_book_def b1_def Let_def)
  next
    case False
    with add_to_ask_level_match_inv(2) [OF inv1 nb side_cases [OF False] ne1] show ?thesis
      by (simp add: accepted_book_def b1_def Let_def)
  qed
qed

lemma accepted_book_trades [simp]: "trades_inv (accepted_book h a b) = trades_inv b"
  by (simp add: accepted_book_def Let_def)

lemma add_order_reachable_inv:
  assumes g: "reachable_inv (h, b)"
  shows "\<exists>r h' b'. add_order order (h, b) = Some (r, h', b') \<and> reachable_inv (h', b')"
proof (cases order)
  case None
  with g show ?thesis by (auto simp: add_order_def)
next
  case (Some a)
  show ?thesis
  proof (cases "symbol (h a) \<noteq> book_symbol b \<or> orders_by_id b (order_id (h a)) \<noteq> None")
    case True
    with g Some show ?thesis by (auto simp: add_order_reject)
  next
    case False
    from g have inv: "match_inv (h, b)" and ne: "no_empty_levels b" and tr: "trades_inv b"
      by (simp_all add: reachable_inv_def book_inv_def)
    from match_orders_from_reachable_inv [of "(h, accepted_book h a b)"] accepted_book_inv [OF inv ne, of a] tr
    obtain s' where
      s': "match_orders (h, accepted_book h a b) = Some s'" "match_inv s'" "trades_inv (snd s')"
          "separated (snd s')" "match_step s' = None" "no_empty_levels (snd s')"
      by auto
    from s'(5) have again: "match_orders s' = Some s'" by (rule match_orders_fixed)
    from False Some s'(1) again have "add_order order (h, b) = Some (True, s')"
      by (simp add: add_order_accept)
    moreover from s' have "reachable_inv s'" by (simp add: reachable_inv_def book_inv_def)
    ultimately show ?thesis by (cases s') auto
  qed
qed

subsection \<open>Cancelling and modifying an order\<close>

lemma removed_book_fields:
  "map fst (bids (removed_book h a oid b)) = map fst (bids b)"
  "map fst (asks (removed_book h a oid b)) = map fst (asks b)"
  "orders_by_id (removed_book h a oid b) = orders_by_id b"
  by (simp_all add: removed_book_def remove_from_bid_level_def remove_from_ask_level_def
        map_find_apply_keys)

lemma removed_book_trades [simp]: "trades_inv (removed_book h a oid b) = trades_inv b"
  by (simp add: removed_book_def)

lemma removed_book_sub:
  "kv \<in> set (bids (removed_book h a oid b)) \<Longrightarrow> \<exists>v. (fst kv, v) \<in> set (bids b) \<and> set (snd kv) \<subseteq> set v"
  "kv \<in> set (asks (removed_book h a oid b)) \<Longrightarrow> \<exists>v. (fst kv, v) \<in> set (asks b) \<and> set (snd kv) \<subseteq> set v"
proof -
  have id: "\<And>m. kv \<in> set m \<Longrightarrow> \<exists>v. (fst kv, v) \<in> set m \<and> set (snd kv) \<subseteq> set v"
    by (metis prod.collapse subset_refl)
  show "kv \<in> set (bids (removed_book h a oid b)) \<Longrightarrow> \<exists>v. (fst kv, v) \<in> set (bids b) \<and> set (snd kv) \<subseteq> set v"
    by (cases "side (h a) = BUY")
       (simp_all add: removed_book_def remove_from_bid_level_def remove_from_ask_level_def
          map_find_apply_filter_sub id)
  show "kv \<in> set (asks (removed_book h a oid b)) \<Longrightarrow> \<exists>v. (fst kv, v) \<in> set (asks b) \<and> set (snd kv) \<subseteq> set v"
    by (cases "side (h a) = BUY")
       (simp_all add: removed_book_def remove_from_bid_level_def remove_from_ask_level_def
          map_find_apply_filter_sub id)
qed

lemma removed_book_absent:
  assumes inv: "match_inv (h, b)" and a: "orders_by_id b oid = Some a"
  shows "\<not> in_levels a (bids (removed_book h a oid b))" "\<not> in_levels a (asks (removed_book h a oid b))"
proof -
  from inv a have oid: "order_id (h a) = oid" by (simp add: match_inv_def ids_consistent_def)
  from inv have lb: "levels_of_side h BUY (bids b)" and la: "levels_of_side h SELL (asks b)"
    and db: "distinct (map fst (bids b))" and da: "distinct (map fst (asks b))"
    by (simp_all add: match_inv_def sorted_levels_def sorted_gt_distinct sorted_lt_distinct)
  have bid: "False" if kv: "kv \<in> set (bids (removed_book h a oid b))" and x: "a \<in> set (snd kv)" for kv
  proof -
    from removed_book_sub(1) [OF kv] x obtain v where v: "(fst kv, v) \<in> set (bids b)" "a \<in> set v" by blast
    with lb have s: "side (h a) = BUY" and p: "price (h a) = fst kv" by (auto simp: levels_of_side_def)
    from kv s have "kv \<in> set (map_find_apply (price (h a)) (filter (\<lambda>x. order_id (h x) \<noteq> oid)) (bids b))"
      by (simp add: removed_book_def remove_from_bid_level_def)
    from map_find_apply_filter_gone [OF db this p [symmetric] x] oid show False by simp
  qed
  have ask: "False" if kv: "kv \<in> set (asks (removed_book h a oid b))" and x: "a \<in> set (snd kv)" for kv
  proof -
    from removed_book_sub(2) [OF kv] x obtain v where v: "(fst kv, v) \<in> set (asks b)" "a \<in> set v" by blast
    with la have s: "side (h a) = SELL" and p: "price (h a) = fst kv" by (auto simp: levels_of_side_def)
    from kv s have "kv \<in> set (map_find_apply (price (h a)) (filter (\<lambda>x. order_id (h x) \<noteq> oid)) (asks b))"
      by (simp add: removed_book_def remove_from_ask_level_def)
    from map_find_apply_filter_gone [OF da this p [symmetric] x] oid show False by simp
  qed
  from bid show "\<not> in_levels a (bids (removed_book h a oid b))" by (auto simp: in_levels_def)
  from ask show "\<not> in_levels a (asks (removed_book h a oid b))" by (auto simp: in_levels_def)
qed

lemma shrink_match_inv:
  assumes inv: "match_inv (h, b)" and sep: "separated b"
    and kb: "map fst (bids b') = map fst (bids b)" and ka: "map fst (asks b') = map fst (asks b)"
    and sb: "\<And>kv. kv \<in> set (bids b') \<Longrightarrow> \<exists>v. (fst kv, v) \<in> set (bids b) \<and> set (snd kv) \<subseteq> set v"
    and sa: "\<And>kv. kv \<in> set (asks b') \<Longrightarrow> \<exists>v. (fst kv, v) \<in> set (asks b) \<and> set (snd kv) \<subseteq> set v"
    and ids: "\<And>oid x. orders_by_id b' oid = Some x \<Longrightarrow> orders_by_id b oid = Some x"
    and hb: "\<And>x. in_levels x (bids b') \<or> in_levels x (asks b') \<Longrightarrow>
               side (h' x) = side (h x) \<and> price (h' x) = price (h x)"
    and ho: "\<And>x. order_id (h' x) = order_id (h x)"
  shows "match_inv (h', b')" "separated b'"
proof -
  from sep show s': "separated b'" by (simp add: separated_def kb ka)
  from inv have "sorted_levels b'" by (simp add: match_inv_def sorted_levels_def kb ka)
  moreover have "levels_of_side h' BUY (bids b')"
    unfolding levels_of_side_def
  proof (intro ballI)
    fix kv x assume kv: "kv \<in> set (bids b')" and x: "x \<in> set (snd kv)"
    from sb [OF kv] x obtain v where "(fst kv, v) \<in> set (bids b)" "x \<in> set v" by blast
    with inv have "side (h x) = BUY \<and> price (h x) = fst kv"
      by (auto simp: match_inv_def levels_of_side_def)
    moreover from kv x have "in_levels x (bids b')" by (auto simp: in_levels_def)
    ultimately show "side (h' x) = BUY \<and> price (h' x) = fst kv" using hb [of x] by simp
  qed
  moreover have "levels_of_side h' SELL (asks b')"
    unfolding levels_of_side_def
  proof (intro ballI)
    fix kv x assume kv: "kv \<in> set (asks b')" and x: "x \<in> set (snd kv)"
    from sa [OF kv] x obtain v where "(fst kv, v) \<in> set (asks b)" "x \<in> set v" by blast
    with inv have "side (h x) = SELL \<and> price (h x) = fst kv"
      by (auto simp: match_inv_def levels_of_side_def)
    moreover from kv x have "in_levels x (asks b')" by (auto simp: in_levels_def)
    ultimately show "side (h' x) = SELL \<and> price (h' x) = fst kv" using hb [of x] by simp
  qed
  moreover from inv have "ids_consistent h' b'"
    unfolding match_inv_def ids_consistent_def using ids ho by auto
  ultimately show "match_inv (h', b')"
    using s' by (simp add: match_inv_def separated_imp_empty_separated)
qed

lemma cancel_order_found:
  "orders_by_id b oid = Some a \<Longrightarrow>
   cancel_order oid (h, b) =
     (True, h(a := (h a)\<lparr>status := CANCELLED\<rparr>),
      cleanup_empty_levels ((removed_book h a oid b)
        \<lparr>orders_by_id := (orders_by_id (removed_book h a oid b))(oid := None),
         total_orders := total_orders (removed_book h a oid b) - 1\<rparr>))"
  by (simp add: cancel_order_def removed_book_def Let_def)

lemma cancel_order_missing:
  "orders_by_id b oid = None \<Longrightarrow> cancel_order oid (h, b) = (False, h, b)"
  by (simp add: cancel_order_def)

lemma cancel_order_reachable_inv:
  assumes g: "reachable_inv (h, b)"
  shows "reachable_inv (snd (cancel_order oid (h, b)))"
proof (cases "orders_by_id b oid")
  case None
  with g show ?thesis by (simp add: cancel_order_missing)
next
  case (Some a)
  let ?r = "removed_book h a oid b"
  let ?b = "?r\<lparr>orders_by_id := (orders_by_id ?r)(oid := None), total_orders := total_orders ?r - 1\<rparr>"
  let ?h = "h(a := (h a)\<lparr>status := CANCELLED\<rparr>)"
  from g have inv: "match_inv (h, b)" and sep: "separated b" and tr: "trades_inv b"
    by (simp_all add: reachable_inv_def book_inv_def)
  have kb: "map fst (bids ?b) = map fst (bids b)" and ka: "map fst (asks ?b) = map fst (asks b)"
    by (simp_all add: removed_book_fields)
  have sb: "\<And>kv. kv \<in> set (bids ?b) \<Longrightarrow> \<exists>v. (fst kv, v) \<in> set (bids b) \<and> set (snd kv) \<subseteq> set v"
    and sa: "\<And>kv. kv \<in> set (asks ?b) \<Longrightarrow> \<exists>v. (fst kv, v) \<in> set (asks b) \<and> set (snd kv) \<subseteq> set v"
    by (simp_all add: removed_book_sub)
  have ids: "\<And>i x. orders_by_id ?b i = Some x \<Longrightarrow> orders_by_id b i = Some x"
    by (simp add: removed_book_fields split: if_splits)
  have hb: "\<And>x. in_levels x (bids ?b) \<or> in_levels x (asks ?b) \<Longrightarrow>
            side (?h x) = side (h x) \<and> price (?h x) = price (h x)"
    and ho: "\<And>x. order_id (?h x) = order_id (h x)"
    by simp_all
  have "match_inv (?h, ?b)" "separated ?b"
    by (rule shrink_match_inv [OF inv sep kb ka sb sa ids hb ho]; assumption)+
  then have "book_inv (?h, cleanup_empty_levels ?b)" by (rule cleanup_book_inv)
  moreover from tr have "trades_inv (cleanup_empty_levels ?b)" by simp
  ultimately show ?thesis using Some by (simp add: cancel_order_found reachable_inv_def)
qed

lemma modify_order_found:
  "orders_by_id b oid = Some a \<Longrightarrow>
   modify_order oid new_quantity new_price now (h, b) =
     Option.bind
       (match_orders (modified_store h a new_quantity new_price now,
          reinserted_book (modified_store h a new_quantity new_price now) a (removed_book h a oid b)))
       (\<lambda>s1. Some (True, fst s1, cleanup_empty_levels (snd s1)))"
  by (simp add: modify_order_def removed_book_def reinserted_book_def modified_store_def Let_def
        split_def)

lemma modify_order_missing:
  "orders_by_id b oid = None \<Longrightarrow> modify_order oid new_quantity new_price now (h, b) = Some (False, h, b)"
  by (simp add: modify_order_def)

lemma reinserted_book_trades [simp]: "trades_inv (reinserted_book h a b) = trades_inv b"
  by (simp add: reinserted_book_def)

lemma modify_order_reachable_inv:
  assumes g: "reachable_inv (h, b)"
  shows "\<exists>r h' b'. modify_order oid new_quantity new_price now (h, b) = Some (r, h', b') \<and> reachable_inv (h', b')"
proof (cases "orders_by_id b oid")
  case None
  with g show ?thesis by (auto simp: modify_order_missing)
next
  case (Some a)
  let ?r = "removed_book h a oid b"
  let ?h = "modified_store h a new_quantity new_price now"
  let ?b = "reinserted_book ?h a ?r"
  from g have inv: "match_inv (h, b)" and sep: "separated b" and tr: "trades_inv b"
    and ne: "no_empty_levels b"
    by (simp_all add: reachable_inv_def book_inv_def)
  note absent = removed_book_absent [OF inv Some]
  have same: "\<And>x. x \<noteq> a \<Longrightarrow> ?h x = h x" and side_a: "side (?h a) = side (h a)"
    and oid: "\<And>x. order_id (?h x) = order_id (h x)"
    by (simp_all add: modified_store_def)
  have hb: "\<And>x. in_levels x (bids ?r) \<or> in_levels x (asks ?r) \<Longrightarrow>
            side (?h x) = side (h x) \<and> price (?h x) = price (h x)"
    using absent same by metis
  have inv1: "match_inv (?h, ?r)"
    by (rule shrink_match_inv(1) [OF inv sep removed_book_fields(1,2) removed_book_sub(1,2) _ hb oid])
       (simp_all add: removed_book_fields)
  have inv2: "match_inv (?h, ?b)"
  proof (cases "side (h a) = BUY")
    case True
    then have "asks ?r = asks b" by (simp add: removed_book_def remove_from_bid_level_def)
    with ne have "\<forall>kv\<in>set (asks ?r). snd kv \<noteq> []" by (simp add: no_empty_levels_def)
    from add_to_bid_level_match_inv(1) [OF inv1 this] True side_a show ?thesis
      by (simp add: reinserted_book_def)
  next
    case False
    then have "bids ?r = bids b" by (simp add: removed_book_def remove_from_ask_level_def)
    with ne have "\<forall>kv\<in>set (bids ?r). snd kv \<noteq> []" by (simp add: no_empty_levels_def)
    from add_to_ask_level_match_inv(1) [OF inv1 this] side_cases [OF False] False side_a show ?thesis
      by (simp add: reinserted_book_def)
  qed
  from tr have tr2: "trades_inv ?b" by simp
  from match_orders_from_reachable_inv [of "(?h, ?b)"] inv2 tr2 obtain s' where
    s': "match_orders (?h, ?b) = Some s'" "match_inv s'" "trades_inv (snd s')" "separated (snd s')"
    by auto
  obtain h' b' where hb: "s' = (h', b')" by (cases s')
  from s' hb have "book_inv (h', cleanup_empty_levels b')" by (auto intro: cleanup_book_inv)
  with s' hb have "reachable_inv (h', cleanup_empty_levels b')" by (simp add: reachable_inv_def)
  moreover from Some s'(1) hb
  have "modify_order oid new_quantity new_price now (h, b) = Some (True, h', cleanup_empty_levels b')"
    by (simp add: modify_order_found)
  ultimately show ?thesis by blast
qed

subsection \<open>Every reachable state\<close>

lemma reachable_inv_ctor: "reachable_inv (h, OrderBook_ctor symb)"
  by (simp add: reachable_inv_def book_inv_def match_inv_def OrderBook_ctor_def sorted_levels_def
        levels_of_side_def ids_consistent_def empty_separated_def no_empty_levels_def
        separated_def trades_inv_def)

lemma apply_operation_reachable_inv:
  assumes "reachable_inv s"
  shows "\<exists>r s'. apply_operation op s = Some (r, s') \<and> reachable_inv s'"
proof -
  obtain h b where s: "s = (h, b)" by (cases s)
  show ?thesis
  proof (cases op)
    case (AddOrder order)
    with add_order_reachable_inv [of h b order] assms s show ?thesis by auto
  next
    case (CancelOrder oid)
    with cancel_order_reachable_inv [of h b oid] assms s show ?thesis
      by (cases "cancel_order oid (h, b)") auto
  next
    case (ModifyOrder oid q p now)
    with modify_order_reachable_inv [of h b oid q p now] assms s show ?thesis by auto
  qed
qed

lemma run_reachable_inv: "reachable_inv s \<Longrightarrow> \<exists>s'. run ops s = Some s' \<and> reachable_inv s'"
proof (induction ops arbitrary: s)
  case Nil
  then show ?case by simp
next
  case (Cons op ops)
  from apply_operation_reachable_inv [OF Cons.prems, of op] obtain r s1 where
    "apply_operation op s = Some (r, s1)" "reachable_inv s1" by blast
  with Cons.IH [of s1] show ?case by simp
qed

lemma reachable_inv_uncrossed:
  assumes "reachable_inv (h, b)"
  shows "bids b = [] \<or> asks b = [] \<or> get_best_bid b < get_best_ask b"
proof (cases "bids b = [] \<or> asks b = []")
  case True
  then show ?thesis by blast
next
  case False
  then have "fst (hd (bids b)) \<in> set (map fst (bids b))" "fst (hd (asks b)) \<in> set (map fst (asks b))"
    by simp_all
  with assms False show ?thesis
    by (auto simp: reachable_inv_def book_inv_def separated_def get_best_bid_def get_best_ask_def
          simp del: set_map)
qed

subsection \<open>What the loop never writes\<close>

lemma match_orders_preserves:
  assumes "match_orders s = Some s'" and "Q s"
    and step: "\<And>t t'. match_step t = Some t' \<Longrightarrow> Q t \<Longrightarrow> Q t'"
  shows "Q s'"
proof -
  have "Q s \<longrightarrow> Q s'"
  proof (rule match_orders.raw_induct [where P = "\<lambda>s s'. Q s \<longrightarrow> Q s'", OF _ assms(1)])
    fix mo s sa
    assume IH: "\<And>x y. mo x = Some y \<Longrightarrow> Q x \<longrightarrow> Q y"
      and eq: "(case match_step s of None \<Rightarrow> Some s | Some s' \<Rightarrow> mo s') = Some sa"
    show "Q s \<longrightarrow> Q sa"
    proof (cases "match_step s")
      case None
      with eq show ?thesis by simp
    next
      case (Some t)
      with eq have "mo t = Some sa" by simp
      from IH [OF this] step [OF Some] show ?thesis by blast
    qed
  qed
  with assms(2) show ?thesis by simp
qed


section \<open>Verification: engine steps\<close>

lemma process_orders_idle:
  "process_orders batch (h, e) = Some (h', e') \<Longrightarrow> counter_idle e \<Longrightarrow> counter_idle e'"
proof (induction batch arbitrary: h e)
  case Nil
  then show ?case by simp
next
  case (Cons a rest)
  then show ?case
    by (auto simp: counter_idle_def split: prod.splits option.splits if_splits)
qed

lemma fold_market_data_updates:
  "trades_executed (fold (\<lambda>data m. m\<lparr>market_data_updates := market_data_updates m + 1\<rparr>) batch m)
     = trades_executed m
   \<and> trades_per_second (fold (\<lambda>data m. m\<lparr>market_data_updates := market_data_updates m + 1\<rparr>) batch m)
     = trades_per_second m"
  by (induction batch arbitrary: m) simp_all

lemma engine_step_idle:
  "engine_step op (h, e) = Some (h', e') \<Longrightarrow> counter_idle e \<Longrightarrow> counter_idle e'"
proof (cases op)
  case ProcessOrderBatch
  then show "engine_step op (h, e) = Some (h', e') \<Longrightarrow> counter_idle e \<Longrightarrow> counter_idle e'"
    by (auto simp: process_order_batch_def counter_idle_def split: prod.splits
          dest!: process_orders_idle [unfolded counter_idle_def])
qed (auto simp: counter_idle_def engine_start_def engine_stop_def submit_order_def
       update_performance_metrics_def engine_cancel_order_def engine_modify_order_def
       submit_market_data_def process_market_data_batch_def calculate_throughput_metrics_def
       reset_performance_metrics_def reset_def Let_def fold_market_data_updates
       split: prod.splits option.splits if_splits bool.splits)

section \<open>Verification: claims about the order book\<close>

lemmas book_eval =
  run.simps apply_operation.simps add_order_def cancel_order_def modify_order_def
  add_to_bid_level_def add_to_ask_level_def remove_from_bid_level_def remove_from_ask_level_def
  cleanup_empty_levels_def push_back_sort_def process_limit_order_def process_market_order_def
  match_orders.simps match_step_def record_trade_def Order_ctor_def OrderBook_ctor_def
  is_filled_def remaining_quantity_def MAX_TRADES_HISTORY_def Let_def example_store_def

text \<open>
  C6. Whatever operations the book has gone through since it was constructed (orders added,
  cancelled and modified, over any store of orders), the next \<open>add_order\<close> call returns,
  and when it has returned the bid side is empty, or the ask side is empty, or the best bid
  is below the best ask: no crossed book persists.
\<close>

theorem add_order_leaves_book_uncrossed:
  "\<exists>s. run ops (h0, OrderBook_ctor symb) = Some s \<and>
       (\<exists>r h b. add_order order s = Some (r, h, b) \<and>
          (bids b = [] \<or> asks b = [] \<or> get_best_bid b < get_best_ask b))"
proof -
  from run_reachable_inv [OF reachable_inv_ctor, of ops h0 symb] obtain s where
    s: "run ops (h0, OrderBook_ctor symb) = Some s" "reachable_inv s" by blast
  obtain h1 b1 where s1: "s = (h1, b1)" by (cases s)
  from add_order_reachable_inv [of h1 b1 order] s s1 obtain r h b where
    "add_order order s = Some (r, h, b)" "reachable_inv (h, b)" by auto
  with reachable_inv_uncrossed [of h b] s show ?thesis by blast
qed

theorem add_order_leaves_book_uncrossed_witness:
  "\<exists>s. run [AddOrder (Some 1), CancelOrder 9, ModifyOrder 1 100 151 90] (example_store, OrderBook_ctor ''AAPL'') = Some s \<and>
       (\<exists>r h b. add_order (Some 2) s = Some (r, h, b) \<and>
          (bids b = [] \<or> asks b = [] \<or> get_best_bid b < get_best_ask b))"
  by (rule add_order_leaves_book_uncrossed)



subsection \<open>Cancelling\<close>

lemma in_levels_filter: "in_levels x (filter P m) \<Longrightarrow> in_levels x m"
  by (force simp: in_levels_def)

text \<open>
  C7. In every state of the store and the book, for every id: the first of two successive
  \<open>cancel_order\<close> calls returns true exactly when the id is in the id-map, and then it sets
  the status of that order to \<open>CANCELLED\<close> and removes the id from the id-map (and, where
  the invariant of the book holds, the order from the price ladders); otherwise it changes
  nothing. The second call returns false and the state after it is the state after the first.
\<close>

theorem cancel_order_twice:
  assumes "cancel_order oid (h, b) = (r1, h1, b1)" "cancel_order oid (h1, b1) = (r2, h2, b2)"
  shows "r1 = (orders_by_id b oid \<noteq> None) \<and> \<not> r2 \<and> (h2, b2) = (h1, b1)
       \<and> (orders_by_id b oid = None \<longrightarrow> (h1, b1) = (h, b))
       \<and> (\<forall>a. orders_by_id b oid = Some a \<longrightarrow>
              status (h1 a) = CANCELLED \<and> orders_by_id b1 oid = None
              \<and> (book_inv (h, b) \<longrightarrow> \<not> in_levels a (bids b1) \<and> \<not> in_levels a (asks b1)))"
proof (cases "orders_by_id b oid")
  case None
  with assms show ?thesis by (simp add: cancel_order_missing)
next
  case (Some a)
  let ?r = "removed_book h a oid b"
  from assms(1) Some have r1: "r1" and h1: "h1 = h(a := (h a)\<lparr>status := CANCELLED\<rparr>)"
    and b1: "b1 = cleanup_empty_levels (?r\<lparr>orders_by_id := (orders_by_id ?r)(oid := None),
                                            total_orders := total_orders ?r - 1\<rparr>)"
    by (simp_all add: cancel_order_found)
  from b1 have gone: "orders_by_id b1 oid = None" by (simp add: cleanup_empty_levels_def)
  with assms(2) have second: "\<not> r2" "(h2, b2) = (h1, b1)" by (simp_all add: cancel_order_missing)
  have st: "status (h1 a) = CANCELLED" by (simp add: h1)
  have lv: "\<not> in_levels a (bids b1) \<and> \<not> in_levels a (asks b1)" if "book_inv (h, b)"
  proof -
    from that have "match_inv (h, b)" by (simp add: book_inv_def)
    from removed_book_absent [OF this Some] show ?thesis
      by (auto simp: b1 cleanup_empty_levels_def dest: in_levels_filter)
  qed
  from Some r1 second gone st lv show ?thesis by simp
qed

text \<open>C7, witness: cancelling the only resting order of a book twice.\<close>

theorem cancel_order_twice_witness:
  "\<exists>h0 b0 h1 b1. run [AddOrder (Some 1)] (example_store, OrderBook_ctor ''AAPL'') = Some (h0, b0)
     \<and> book_inv (h0, b0) \<and> orders_by_id b0 1 = Some 1
     \<and> cancel_order 1 (h0, b0) = (True, h1, b1) \<and> cancel_order 1 (h1, b1) = (False, h1, b1)
     \<and> status (h1 1) = CANCELLED \<and> orders_by_id b1 1 = None \<and> bids b1 = [] \<and> \<not> in_levels 1 (bids b1)"
proof -
  from run_reachable_inv [OF reachable_inv_ctor, of "[AddOrder (Some 1)]" example_store "''AAPL''"]
  obtain h0 b0 where r: "run [AddOrder (Some 1)] (example_store, OrderBook_ctor ''AAPL'') = Some (h0, b0)"
    and inv: "book_inv (h0, b0)" by (auto simp: reachable_inv_def)
  from r have v: "h0 = example_store" "bids b0 = [(150, [1])]" "asks b0 = []" "orders_by_id b0 = [1 \<mapsto> 1]"
    by (auto simp: book_eval)
  obtain r1 h1 b1 where c1: "cancel_order 1 (h0, b0) = (r1, h1, b1)" by (cases "cancel_order 1 (h0, b0)")
  obtain r2 h2 b2 where c2: "cancel_order 1 (h1, b1) = (r2, h2, b2)" by (cases "cancel_order 1 (h1, b1)")
  from cancel_order_twice [OF c1 c2] v inv
  have "r1" "\<not> r2" "(h2, b2) = (h1, b1)" "status (h1 1) = CANCELLED" "orders_by_id b1 1 = None"
    "\<not> in_levels 1 (bids b1)" by simp_all
  moreover from c1 v have "bids b1 = []" by (auto simp: book_eval)
  ultimately show ?thesis using r inv v c1 c2 by auto
qed

subsection \<open>Admission, timestamps and fills\<close>

lemmas result_eval = accepted_def order_after_def book_after_def

text \<open>
  C1, the code at the failing input. A \<open>MARKET\<close> buy order (address 3, price field 0) added
  to an empty book: \<open>add_order\<close> returns true, the order is put on the bid ladder at price 0
  and in the id-map, its status stays \<open>PENDING\<close>. And a \<open>MARKET\<close> buy order for 50
  (address 8, price field 200) against asks of 10 in all: one trade of 10, then the ask side
  is exhausted and the residual 40 rests on the bid ladder at 200, status \<open>PENDING\<close>.
\<close>

theorem market_order_rests_on_book:
  "type (example_store 3) = MARKET
   \<and> add_order (Some 3) (example_store, OrderBook_ctor ''AAPL'')
       = Some (True, example_store,
               (OrderBook_ctor ''AAPL'')\<lparr>bids := [(0, [3])], orders_by_id := [3 \<mapsto> 3], total_orders := 1\<rparr>)
   \<and> status (example_store 3) = PENDING
   \<and> type (example_store 8) = MARKET
   \<and> (\<exists>h b. run [AddOrder (Some 7), AddOrder (Some 8)] (example_store, OrderBook_ctor ''AAPL'') = Some (h, b)
        \<and> asks b = [] \<and> bids b = [(200, [8])] \<and> orders_by_id b 8 = Some 8
        \<and> filled_quantity (h 8) = 10 \<and> remaining_quantity (h 8) = 40 \<and> status (h 8) = PENDING
        \<and> map trade_quantity (all_trades b) = [10])"
  by (simp add: book_eval)

text \<open>
  C2, counterexample. \<open>add_order\<close> accepts an order of quantity 0 (address 4) and a
  \<open>LIMIT\<close> order of price -5 (address 5): it returns true and the order rests on the book.
\<close>

theorem add_order_accepts_malformed_orders:
  "quantity (example_store 4) = 0
   \<and> symbol (example_store 4) = book_symbol (OrderBook_ctor ''AAPL'')
   \<and> add_order (Some 4) (example_store, OrderBook_ctor ''AAPL'')
        \<noteq> Some (False, example_store, OrderBook_ctor ''AAPL'')
   \<and> accepted (add_order (Some 4) (example_store, OrderBook_ctor ''AAPL'')) = Some True
   \<and> map_option bids (book_after (add_order (Some 4) (example_store, OrderBook_ctor ''AAPL''))) = Some [(150, [4])]
   \<and> type (example_store 5) = LIMIT \<and> price (example_store 5) \<le> 0
   \<and> add_order (Some 5) (example_store, OrderBook_ctor ''AAPL'')
        \<noteq> Some (False, example_store, OrderBook_ctor ''AAPL'')
   \<and> accepted (add_order (Some 5) (example_store, OrderBook_ctor ''AAPL'')) = Some True
   \<and> map_option asks (book_after (add_order (Some 5) (example_store, OrderBook_ctor ''AAPL''))) = Some [(- 5, [5])]"
  by (simp add: book_eval result_eval)

text \<open>
  C2, as amended. For every order, \<open>add_order\<close> returns false and leaves the store and the
  book unchanged (ladders, id-map, trade history, counters) whenever the symbol of the order
  differs from the symbol of the book or the id of the order is already in the id-map.
\<close>

theorem add_order_rejects_wrong_symbol_and_duplicate_id:
  assumes "symbol (h a) \<noteq> book_symbol b \<or> orders_by_id b (order_id (h a)) \<noteq> None"
  shows "add_order (Some a) (h, b) = Some (False, h, b)"
  using assms by (rule add_order_reject)

text \<open>C2, witness: an order for another symbol, and an order whose id is taken.\<close>

theorem add_order_rejects_wrong_symbol_and_duplicate_id_witness:
  "symbol (example_store 1) \<noteq> book_symbol (OrderBook_ctor ''MSFT'')
   \<and> add_order (Some 1) (example_store, OrderBook_ctor ''MSFT'')
       = Some (False, example_store, OrderBook_ctor ''MSFT'')
   \<and> orders_by_id ((OrderBook_ctor ''AAPL'')\<lparr>orders_by_id := [1 \<mapsto> 2]\<rparr>) (order_id (example_store 1)) \<noteq> None
   \<and> add_order (Some 1) (example_store, (OrderBook_ctor ''AAPL'')\<lparr>orders_by_id := [1 \<mapsto> 2]\<rparr>)
       = Some (False, example_store, (OrderBook_ctor ''AAPL'')\<lparr>orders_by_id := [1 \<mapsto> 2]\<rparr>)"
proof -
  have a: "symbol (example_store 1) \<noteq> book_symbol (OrderBook_ctor ''MSFT'')"
    by (simp add: example_store_def Order_ctor_def OrderBook_ctor_def)
  have b: "orders_by_id ((OrderBook_ctor ''AAPL'')\<lparr>orders_by_id := [1 \<mapsto> 2]\<rparr>) (order_id (example_store 1)) \<noteq> None"
    by (simp add: example_store_def Order_ctor_def OrderBook_ctor_def)
  from a have "symbol (example_store 1) \<noteq> book_symbol (OrderBook_ctor ''MSFT'')
      \<or> orders_by_id (OrderBook_ctor ''MSFT'') (order_id (example_store 1)) \<noteq> None" by simp
  note w1 = add_order_rejects_wrong_symbol_and_duplicate_id
               [of example_store 1 "OrderBook_ctor ''MSFT''", OF this]
  from b have "symbol (example_store 1) \<noteq> book_symbol ((OrderBook_ctor ''AAPL'')\<lparr>orders_by_id := [1 \<mapsto> 2]\<rparr>)
      \<or> orders_by_id ((OrderBook_ctor ''AAPL'')\<lparr>orders_by_id := [1 \<mapsto> 2]\<rparr>) (order_id (example_store 1)) \<noteq> None"
    by simp
  note w2 = add_order_rejects_wrong_symbol_and_duplicate_id
               [of example_store 1 "(OrderBook_ctor ''AAPL'')\<lparr>orders_by_id := [1 \<mapsto> 2]\<rparr>", OF this]
  from a b w1 w2 show ?thesis by simp
qed

text \<open>
  C3, the code at the failing input. A buy of 100 at 150 (address 1), then a sell of 60 at
  150 (address 6): one trade of 60. The sell order is filled (remaining quantity 0) and is
  removed from the book with status \<open>PENDING\<close>, not \<open>FILLED\<close>; the buy order is partially
  filled and rests with status \<open>PENDING\<close>, not \<open>PARTIALLY_FILLED\<close>.
\<close>

theorem matching_leaves_status_pending:
  "\<exists>h b. run [AddOrder (Some 1), AddOrder (Some 6)] (example_store, OrderBook_ctor ''AAPL'') = Some (h, b)
     \<and> map trade_quantity (all_trades b) = [60]
     \<and> filled_quantity (h 1) = 60 \<and> remaining_quantity (h 1) = 40 \<and> is_partially_filled (h 1)
     \<and> status (h 1) = PENDING \<and> orders_by_id b 1 = Some 1
     \<and> filled_quantity (h 6) = 60 \<and> remaining_quantity (h 6) = 0 \<and> is_filled (h 6)
     \<and> status (h 6) = PENDING \<and> orders_by_id b 6 = None \<and> asks b = []"
  by (simp add: book_eval is_partially_filled_def)




text \<open>
  C5, the code at the failing input. A buy of 100 at 150.00 (address 1), then a sell of 100 at
  149.00 (address 2), on an empty book: exactly one trade, of quantity 100 at the midpoint
  149.50, is recorded; both orders are filled (\<open>is_filled\<close>) and gone from the book, which is
  empty; but the status of both is still \<open>PENDING\<close>, not \<open>FILLED\<close>.
\<close>

theorem simple_cross_fills_without_status:
  "\<exists>h b. run [AddOrder (Some 1), AddOrder (Some 2)] (example_store, OrderBook_ctor ''AAPL'') = Some (h, b)
     \<and> all_trades b = [\<lparr>md_symbol = ''AAPL'', md_type = TRADE, trade_price = 149.5,
                          trade_quantity = 100, trade_id = 1\<rparr>]
     \<and> recent_trades b = all_trades b \<and> get_trade_count b = 1
     \<and> bids b = [] \<and> asks b = [] \<and> orders_by_id b = Map.empty \<and> get_order_count b = 0
     \<and> is_filled (h 1) \<and> is_filled (h 2) \<and> filled_quantity (h 1) = 100 \<and> filled_quantity (h 2) = 100
     \<and> status (h 1) = PENDING \<and> status (h 2) = PENDING"
  by (simp add: book_eval get_trade_count_def get_order_count_def)

section \<open>Verification: claims about the engine\<close>

lemma engine_run_idle:
  "engine_run ops (h, e) = Some (h', e') \<Longrightarrow> counter_idle e \<Longrightarrow> counter_idle e'"
proof (induction ops arbitrary: h e)
  case Nil
  then show ?case by simp
next
  case (Cons op ops)
  from Cons.prems(1) obtain h1 e1 where
    st: "engine_step op (h, e) = Some (h1, e1)" and rest: "engine_run ops (h1, e1) = Some (h', e')"
    by (auto split: Option.bind_splits)
  from engine_step_idle [OF st Cons.prems(2)] have "counter_idle e1" .
  from Cons.IH [OF rest this] show ?case .
qed

subsection \<open>Every engine operation returns\<close>

lemma same_but_filled_refl: "same_but_filled r r"
  by (simp add: same_but_filled_def)

lemma same_but_filled_trans:
  "same_but_filled r r' \<Longrightarrow> same_but_filled r' r'' \<Longrightarrow> same_but_filled r r''"
  by (cases r; cases r'; cases r'') (simp add: same_but_filled_def)

lemma same_but_filled_fields:
  assumes "same_but_filled r r'"
  shows "side r' = side r" "price r' = price r" "order_id r' = order_id r" "symbol r' = symbol r"
  using assms unfolding same_but_filled_def by (rule filled_update_fields)+

lemma same_but_filled_frame: "(\<And>x. same_but_filled (h x) (h' x)) \<Longrightarrow> store_frame symb h h'"
  by (simp add: store_frame_def same_but_filled_fields)

lemma shrunk_refl: "shrunk b b"
  by (simp add: shrunk_def)

lemma shrunk_trans: "shrunk b b' \<Longrightarrow> shrunk b' b'' \<Longrightarrow> shrunk b b''"
  by (simp add: shrunk_def)

lemma head_popped_in_levels: "head_popped m' m \<Longrightarrow> in_levels x m' \<Longrightarrow> in_levels x m"
  by (force simp: head_popped_def in_levels_def split: if_splits)

lemma match_step_shrunk:
  assumes "match_step (h, b) = Some (h', b')"
  shows "shrunk b b'" "same_but_filled (h x) (h' x)"
proof -
  from match_step_head_popped [OF assms] match_step_symbol [OF assms] match_step_ids [OF assms]
  show "shrunk b b'" by (auto simp: shrunk_def dest: head_popped_in_levels)
  from match_step_store [OF assms] show "same_but_filled (h x) (h' x)"
    by (simp add: same_but_filled_def)
qed

lemma match_orders_shrunk:
  assumes "match_orders (h, b) = Some (h', b')"
  shows "shrunk b b'" "same_but_filled (h x) (h' x)"
proof -
  let ?Q = "\<lambda>t. shrunk b (snd t) \<and> (\<forall>x. same_but_filled (h x) (fst t x))"
  have "?Q (h', b')"
  proof (rule match_orders_preserves [OF assms, where Q = ?Q])
    show "?Q (h, b)" by (simp add: shrunk_refl same_but_filled_refl)
  next
    fix t t' assume a: "match_step t = Some t'" "?Q t"
    obtain h1 b1 where t: "t = (h1, b1)" by (cases t)
    obtain h2 b2 where t': "t' = (h2, b2)" by (cases t')
    from a(1) t t' have st: "match_step (h1, b1) = Some (h2, b2)" by simp
    from a(2) t match_step_shrunk [OF st] t' show "?Q t'"
      by (auto intro: shrunk_trans same_but_filled_trans)
  qed
  then show "shrunk b b'" "same_but_filled (h x) (h' x)" by simp_all
qed

lemma book_of_symbol_shrunk:
  assumes "book_of_symbol h b" "shrunk b b'" "\<And>x. symbol (h' x) = symbol (h x)"
  shows "book_of_symbol h' b'"
  using assms unfolding book_of_symbol_def shrunk_def by metis

lemma in_levels_subscript_gt:
  "in_levels x (map_subscript (>) k (push_back_sort h a) m) \<Longrightarrow> x = a \<or> in_levels x m"
proof -
  assume "in_levels x (map_subscript (>) k (push_back_sort h a) m)"
  then obtain kv where kv: "kv \<in> set (map_subscript (>) k (push_back_sort h a) m)" "x \<in> set (snd kv)"
    by (auto simp: in_levels_def)
  from map_subscript_entries_gt [OF kv(1)] kv(2) show ?thesis
    by (force simp: in_levels_def push_back_sort_set)
qed

lemma in_levels_subscript_lt:
  "in_levels x (map_subscript (<) k (push_back_sort h a) m) \<Longrightarrow> x = a \<or> in_levels x m"
proof -
  assume "in_levels x (map_subscript (<) k (push_back_sort h a) m)"
  then obtain kv where kv: "kv \<in> set (map_subscript (<) k (push_back_sort h a) m)" "x \<in> set (snd kv)"
    by (auto simp: in_levels_def)
  from map_subscript_entries_lt [OF kv(1)] kv(2) show ?thesis
    by (force simp: in_levels_def push_back_sort_set)
qed

lemma in_levels_reinserted:
  "in_levels x (bids (reinserted_book h a b)) \<or> in_levels x (asks (reinserted_book h a b)) \<Longrightarrow>
   x = a \<or> in_levels x (bids b) \<or> in_levels x (asks b)"
  by (auto simp: reinserted_book_def add_to_bid_level_def add_to_ask_level_def
        dest: in_levels_subscript_gt in_levels_subscript_lt split: if_splits)

lemma in_levels_removed:
  "in_levels x (bids (removed_book h a oid b)) \<Longrightarrow> in_levels x (bids b)"
  "in_levels x (asks (removed_book h a oid b)) \<Longrightarrow> in_levels x (asks b)"
  using removed_book_sub [of _ h a oid b] unfolding in_levels_def by (metis fst_conv snd_conv subsetD)+

lemma accepted_book_reinserted:
  "accepted_book h a b =
     (reinserted_book h a (b\<lparr>orders_by_id := (orders_by_id b)(order_id (h a) \<mapsto> a)\<rparr>))
       \<lparr>total_orders := total_orders b + 1\<rparr>"
  by (simp add: accepted_book_def reinserted_book_def Let_def add_to_bid_level_def add_to_ask_level_def)

lemma reinserted_book_fields:
  "book_symbol (reinserted_book h a b) = book_symbol b"
  "orders_by_id (reinserted_book h a b) = orders_by_id b"
  by (simp_all add: reinserted_book_def add_to_bid_level_def add_to_ask_level_def)

lemma removed_book_symbol: "book_symbol (removed_book h a oid b) = book_symbol b"
  by (simp add: removed_book_def remove_from_bid_level_def remove_from_ask_level_def)

lemma book_of_symbol_accepted:
  assumes "book_of_symbol h b" "symbol (h a) = book_symbol b"
  shows "book_of_symbol h (accepted_book h a b)"
  unfolding book_of_symbol_def
proof (intro conjI allI impI)
  fix x assume "in_levels x (bids (accepted_book h a b)) \<or> in_levels x (asks (accepted_book h a b))"
  then have "x = a \<or> in_levels x (bids b) \<or> in_levels x (asks b)"
    using in_levels_reinserted [of x h a "b\<lparr>orders_by_id := (orders_by_id b)(order_id (h a) \<mapsto> a)\<rparr>"]
    by (simp add: accepted_book_reinserted)
  with assms show "symbol (h x) = book_symbol (accepted_book h a b)"
    by (auto simp: book_of_symbol_def accepted_book_reinserted reinserted_book_fields)
next
  fix oid x assume "orders_by_id (accepted_book h a b) oid = Some x"
  with assms show "symbol (h x) = book_symbol (accepted_book h a b)"
    by (auto simp: book_of_symbol_def accepted_book_reinserted reinserted_book_fields split: if_splits)
qed

lemma add_order_frame:
  assumes "add_order order (h, b) = Some (r, h', b')"
  shows "book_symbol b' = book_symbol b" "same_but_filled (h x) (h' x)"
    "book_of_symbol h b \<Longrightarrow> book_of_symbol h' b'"
proof -
  have "book_symbol b' = book_symbol b \<and> (\<forall>x. same_but_filled (h x) (h' x))
        \<and> (book_of_symbol h b \<longrightarrow> book_of_symbol h' b')"
  proof (cases order)
    case None
    with assms show ?thesis by (simp add: add_order_def same_but_filled_refl)
  next
    case (Some a)
    show ?thesis
    proof (cases "symbol (h a) \<noteq> book_symbol b \<or> orders_by_id b (order_id (h a)) \<noteq> None")
      case True
      with assms Some show ?thesis by (simp add: add_order_reject same_but_filled_refl)
    next
      case False
      with assms Some obtain s1 where
        m1: "match_orders (h, accepted_book h a b) = Some s1" and m2: "match_orders s1 = Some (h', b')"
        by (auto simp: add_order_accept split: Option.bind_splits)
      obtain h1 b1 where s1: "s1 = (h1, b1)" by (cases s1)
      from m1 s1 have a1: "shrunk (accepted_book h a b) b1" "\<And>x. same_but_filled (h x) (h1 x)"
        by (simp_all add: match_orders_shrunk)
      from m2 s1 have a2: "shrunk b1 b'" "\<And>x. same_but_filled (h1 x) (h' x)"
        by (simp_all add: match_orders_shrunk)
      from a1(2) a2(2) have sf: "\<And>x. same_but_filled (h x) (h' x)"
        by (blast intro: same_but_filled_trans)
      from a1(1) a2(1) have sh: "shrunk (accepted_book h a b) b'" by (rule shrunk_trans)
      then have sy: "book_symbol b' = book_symbol b"
        by (simp add: shrunk_def accepted_book_reinserted reinserted_book_fields)
      have "book_of_symbol h' b'" if "book_of_symbol h b"
        using book_of_symbol_shrunk [OF book_of_symbol_accepted [OF that] sh] False sf
        by (simp add: same_but_filled_fields)
      with sf sy show ?thesis by simp
    qed
  qed
  then show "book_symbol b' = book_symbol b" "same_but_filled (h x) (h' x)"
    "book_of_symbol h b \<Longrightarrow> book_of_symbol h' b'" by simp_all
qed

lemma cancel_order_frame:
  assumes "cancel_order oid (h, b) = (r, h', b')"
  shows "book_symbol b' = book_symbol b" "store_frame symb h h'"
    "book_of_symbol h b \<Longrightarrow> book_of_symbol h' b'"
proof -
  have "book_symbol b' = book_symbol b \<and> store_frame symb h h'
        \<and> (book_of_symbol h b \<longrightarrow> book_of_symbol h' b')"
  proof (cases "orders_by_id b oid")
    case None
    with assms show ?thesis by (simp add: cancel_order_missing store_frame_def)
  next
    case (Some a)
    let ?r = "removed_book h a oid b"
    from assms Some have h': "h' = h(a := (h a)\<lparr>status := CANCELLED\<rparr>)"
      and b': "b' = cleanup_empty_levels (?r\<lparr>orders_by_id := (orders_by_id ?r)(oid := None),
                                              total_orders := total_orders ?r - 1\<rparr>)"
      by (simp_all add: cancel_order_found)
    have sy: "book_symbol b' = book_symbol b"
      by (simp add: b' cleanup_empty_levels_def removed_book_symbol)
    have fr: "store_frame symb h h'" by (simp add: store_frame_def h')
    have sh: "shrunk b b'"
      unfolding shrunk_def
      by (auto simp: b' cleanup_empty_levels_def removed_book_fields removed_book_symbol
            dest: in_levels_filter in_levels_removed split: if_splits)
    have "book_of_symbol h' b'" if "book_of_symbol h b"
      using book_of_symbol_shrunk [OF that sh] by (simp add: h')
    with sy fr show ?thesis by simp
  qed
  then show "book_symbol b' = book_symbol b" "store_frame symb h h'"
    "book_of_symbol h b \<Longrightarrow> book_of_symbol h' b'" by simp_all
qed

lemma modify_order_frame:
  assumes "modify_order oid q p now (h, b) = Some (r, h', b')" and bs: "book_of_symbol h b"
  shows "book_symbol b' = book_symbol b" "store_frame (book_symbol b) h h'" "book_of_symbol h' b'"
proof -
  have "book_symbol b' = book_symbol b \<and> store_frame (book_symbol b) h h' \<and> book_of_symbol h' b'"
  proof (cases "orders_by_id b oid")
    case None
    with assms show ?thesis by (simp add: modify_order_missing store_frame_def)
  next
    case (Some a)
    let ?r = "removed_book h a oid b"
    let ?h = "modified_store h a q p now"
    let ?b = "reinserted_book ?h a ?r"
    from assms(1) Some obtain h1 b1 where m: "match_orders (?h, ?b) = Some (h1, b1)"
      and h': "h' = h1" and b': "b' = cleanup_empty_levels b1"
      by (auto simp: modify_order_found split: Option.bind_splits)
    from bs Some have sa: "symbol (h a) = book_symbol b" by (simp add: book_of_symbol_def)
    have hs: "\<And>x. symbol (?h x) = symbol (h x)" "\<And>x. order_id (?h x) = order_id (h x)"
      "\<And>x. side (?h x) = side (h x)" "\<And>x. x \<noteq> a \<Longrightarrow> price (?h x) = price (h x)"
      by (simp_all add: modified_store_def)
    note sf = match_orders_shrunk(2) [OF m]
    have fr: "store_frame (book_symbol b) h h'"
      unfolding store_frame_def h'
    proof (intro allI conjI impI)
      fix x
      show "order_id (h1 x) = order_id (h x)" "symbol (h1 x) = symbol (h x)" "side (h1 x) = side (h x)"
        using same_but_filled_fields [OF sf [of x]] hs by simp_all
      assume "symbol (h x) \<noteq> book_symbol b"
      with sa have "x \<noteq> a" by auto
      with same_but_filled_fields(2) [OF sf [of x]] hs(4) show "price (h1 x) = price (h x)" by simp
    qed
    have b0: "book_of_symbol ?h ?b"
      unfolding book_of_symbol_def
    proof (intro conjI allI impI)
      fix x assume "in_levels x (bids ?b) \<or> in_levels x (asks ?b)"
      from in_levels_reinserted [OF this] have "x = a \<or> in_levels x (bids b) \<or> in_levels x (asks b)"
        by (auto dest: in_levels_removed)
      with bs sa show "symbol (?h x) = book_symbol ?b"
        by (auto simp: hs book_of_symbol_def reinserted_book_fields removed_book_symbol)
    next
      fix i x assume "orders_by_id ?b i = Some x"
      with bs show "symbol (?h x) = book_symbol ?b"
        by (simp add: hs book_of_symbol_def reinserted_book_fields removed_book_symbol removed_book_fields)
    qed
    from match_orders_shrunk(1) [OF m] have "shrunk ?b b'"
      unfolding shrunk_def b' by (auto simp: cleanup_empty_levels_def dest: in_levels_filter)
    from book_of_symbol_shrunk [OF b0 this, of h'] sf have "book_of_symbol h' b'"
      by (simp add: h' same_but_filled_fields)
    moreover from \<open>shrunk ?b b'\<close> have "book_symbol b' = book_symbol b"
      by (simp add: shrunk_def reinserted_book_fields removed_book_symbol)
    ultimately show ?thesis using fr by simp
  qed
  then show "book_symbol b' = book_symbol b" "store_frame (book_symbol b) h h'" "book_of_symbol h' b'"
    by simp_all
qed

lemma foreign_book:
  assumes inv: "reachable_inv (h, B)" and bs: "book_of_symbol h B"
    and fr: "store_frame symb h h'" and ne: "book_symbol B \<noteq> symb"
  shows "reachable_inv (h', B)" "book_of_symbol h' B"
proof -
  from fr have sy: "\<And>x. symbol (h' x) = symbol (h x)" and oi: "\<And>x. order_id (h' x) = order_id (h x)"
    by (simp_all add: store_frame_def)
  from bs sy show "book_of_symbol h' B" by (simp add: book_of_symbol_def)
  from inv have mi: "match_inv (h, B)" and sep: "separated B" and rest: "no_empty_levels B" "trades_inv B"
    by (simp_all add: reachable_inv_def book_inv_def)
  have hb: "\<And>x. in_levels x (bids B) \<or> in_levels x (asks B) \<Longrightarrow>
            side (h' x) = side (h x) \<and> price (h' x) = price (h x)"
    using bs fr ne unfolding book_of_symbol_def store_frame_def by metis
  have sub: "\<And>m kv. kv \<in> set m \<Longrightarrow> \<exists>v. (fst kv, v) \<in> set m \<and> set (snd kv) \<subseteq> set v"
    by (metis prod.collapse subset_refl)
  have "match_inv (h', B)"
    by (rule shrink_match_inv(1) [OF mi sep refl refl sub sub _ hb oi]) simp_all
  with sep rest show "reachable_inv (h', B)" by (simp add: reachable_inv_def book_inv_def)
qed

lemma books_inv_update:
  assumes "books_inv h books" "store_frame symb h h'" "book_symbol A = symb"
    "reachable_inv (h', A)" "book_of_symbol h' A"
  shows "books_inv h' (books(symb \<mapsto> A))"
  unfolding books_inv_def
proof (intro allI impI)
  fix s B assume l: "(books(symb \<mapsto> A)) s = Some B"
  show "book_symbol B = s \<and> reachable_inv (h', B) \<and> book_of_symbol h' B"
  proof (cases "s = symb")
    case True
    with l assms show ?thesis by simp
  next
    case False
    with l have "books s = Some B" by simp
    with assms(1) have B: "book_symbol B = s" "reachable_inv (h, B)" "book_of_symbol h B"
      by (simp_all add: books_inv_def)
    from B(1) False have "book_symbol B \<noteq> symb" by simp
    from foreign_book [OF B(2,3) assms(2) this] B(1) show ?thesis by simp
  qed
qed

lemma book_of_symbol_ctor: "book_of_symbol h (OrderBook_ctor symb)"
  by (simp add: book_of_symbol_def OrderBook_ctor_def in_levels_def)

lemma get_or_create_order_book_inv:
  assumes "books_inv h books" "get_or_create_order_book symb books = (book, books1)"
  shows "books_inv h books1" "book_symbol book = symb" "reachable_inv (h, book)" "book_of_symbol h book"
    "books1(symb \<mapsto> book') = books(symb \<mapsto> book')"
proof -
  have "books_inv h books1 \<and> book_symbol book = symb \<and> reachable_inv (h, book) \<and> book_of_symbol h book
        \<and> books1(symb \<mapsto> book') = books(symb \<mapsto> book')"
  proof (cases "books symb")
    case None
    with assms(2) have e: "book = OrderBook_ctor symb" "books1 = books(symb \<mapsto> OrderBook_ctor symb)"
      by (auto simp: get_or_create_order_book_def)
    have c: "book_symbol (OrderBook_ctor symb) = symb" by (simp add: OrderBook_ctor_def)
    have "store_frame symb h h" by (simp add: store_frame_def)
    from books_inv_update [OF assms(1) this c reachable_inv_ctor book_of_symbol_ctor] e c
    show ?thesis by (simp add: reachable_inv_ctor book_of_symbol_ctor)
  next
    case (Some B)
    with assms(2) have "book = B" "books1 = books" by (auto simp: get_or_create_order_book_def)
    with assms(1) Some show ?thesis by (simp add: books_inv_def)
  qed
  then show "books_inv h books1" "book_symbol book = symb" "reachable_inv (h, book)"
    "book_of_symbol h book" "books1(symb \<mapsto> book') = books(symb \<mapsto> book')" by simp_all
qed

lemma process_orders_total:
  "books_inv h (order_books e) \<Longrightarrow>
   \<exists>h' e'. process_orders batch (h, e) = Some (h', e') \<and> books_inv h' (order_books e')"
proof (induction batch arbitrary: h e)
  case Nil
  then show ?case by simp
next
  case (Cons a rest)
  obtain book books1 where gc: "get_or_create_order_book (symbol (h a)) (order_books e) = (book, books1)"
    by (cases "get_or_create_order_book (symbol (h a)) (order_books e)")
  note g = get_or_create_order_book_inv [OF Cons.prems gc]
  from add_order_reachable_inv [OF g(3), of "Some a"] obtain r h' book' where
    ad: "add_order (Some a) (h, book) = Some (r, h', book')" and ri: "reachable_inv (h', book')" by blast
  note f = add_order_frame [OF ad]
  have fr: "store_frame (symbol (h a)) h h'" by (rule same_but_filled_frame) (rule f(2))
  from f(1) g(2) have sy: "book_symbol book' = symbol (h a)" by simp
  from books_inv_update [OF g(1) fr sy ri f(3) [OF g(4)]]
  have bi: "books_inv h' (books1(symbol (h a) \<mapsto> book'))" .
  let ?e = "e\<lparr>order_books := books1(symbol (h a) \<mapsto> book'),
              metrics := (if r then (metrics e)\<lparr>orders_processed := orders_processed (metrics e) + 1\<rparr>
                          else metrics e)\<rparr>"
  from bi have "books_inv h' (order_books ?e)" by simp
  from Cons.IH [OF this] obtain h'' e'' where
    "process_orders rest (h', ?e) = Some (h'', e'')" "books_inv h'' (order_books e'')" by blast
  with gc ad show ?case by simp
qed

lemma engine_step_total:
  assumes "books_inv h (order_books e)"
  shows "\<exists>h' e'. engine_step op (h, e) = Some (h', e') \<and> books_inv h' (order_books e')"
proof (cases op)
  case (Start ok)
  with assms show ?thesis by (simp add: engine_start_def)
next
  case Stop
  with assms show ?thesis by (simp add: engine_stop_def)
next
  case (SubmitOrder order latency_ns)
  with assms show ?thesis
    by (auto simp: submit_order_def split: option.splits prod.splits bool.splits)
next
  case (EngineCancelOrder oid symb)
  show ?thesis
  proof (cases "running e \<and> order_books e symb \<noteq> None")
    case False
    with assms EngineCancelOrder show ?thesis by (auto simp: engine_cancel_order_def)
  next
    case True
    then obtain book where bk: "order_books e symb = Some book" by auto
    with assms have B: "book_symbol book = symb" "reachable_inv (h, book)" "book_of_symbol h book"
      by (simp_all add: books_inv_def)
    obtain r h' book' where c: "cancel_order oid (h, book) = (r, h', book')"
      by (cases "cancel_order oid (h, book)")
    from cancel_order_reachable_inv [OF B(2), of oid] c have ri: "reachable_inv (h', book')" by simp
    note f = cancel_order_frame [OF c]
    from f(1) B(1) have sy: "book_symbol book' = symb" by simp
    from books_inv_update [OF assms f(2) sy ri f(3) [OF B(3)]]
    have "books_inv h' ((order_books e)(symb \<mapsto> book'))" .
    with True bk c EngineCancelOrder show ?thesis by (simp add: engine_cancel_order_def)
  qed
next
  case (EngineModifyOrder oid symb q p now)
  show ?thesis
  proof (cases "running e \<and> order_books e symb \<noteq> None")
    case False
    with assms EngineModifyOrder show ?thesis by (auto simp: engine_modify_order_def)
  next
    case True
    then obtain book where bk: "order_books e symb = Some book" by auto
    with assms have B: "book_symbol book = symb" "reachable_inv (h, book)" "book_of_symbol h book"
      by (simp_all add: books_inv_def)
    from modify_order_reachable_inv [OF B(2), of oid q p now] obtain r h' book' where
      m: "modify_order oid q p now (h, book) = Some (r, h', book')" and ri: "reachable_inv (h', book')"
      by blast
    note f = modify_order_frame [OF m B(3)]
    from f(1) B(1) have sy: "book_symbol book' = symb" by simp
    from f(2) B(1) have fr: "store_frame symb h h'" by simp
    from books_inv_update [OF assms fr sy ri f(3)]
    have "books_inv h' ((order_books e)(symb \<mapsto> book'))" .
    with True bk m EngineModifyOrder show ?thesis by (simp add: engine_modify_order_def)
  qed
next
  case (SubmitMarketData data)
  with assms show ?thesis
    by (auto simp: submit_market_data_def split: prod.splits bool.splits)
next
  case ProcessOrderBatch
  obtain batch r where c: "collect_batch BUFFER_SIZE [] (order_buffer e) = (batch, r)"
    by (cases "collect_batch BUFFER_SIZE [] (order_buffer e)")
  from assms have "books_inv h (order_books (e\<lparr>order_buffer := r\<rparr>))" by simp
  from process_orders_total [OF this, of batch] c ProcessOrderBatch show ?thesis
    by (simp add: process_order_batch_def)
next
  case ProcessMarketDataBatch
  with assms show ?thesis by (simp add: process_market_data_batch_def split: prod.splits)
next
  case CalculateThroughputMetrics
  with assms show ?thesis by (simp add: calculate_throughput_metrics_def Let_def)
next
  case ResetPerformanceMetrics
  with assms show ?thesis by (simp add: reset_performance_metrics_def)
qed

lemma engine_run_total:
  "books_inv h (order_books e) \<Longrightarrow>
   \<exists>h' e'. engine_run ops (h, e) = Some (h', e') \<and> books_inv h' (order_books e')"
proof (induction ops arbitrary: h e)
  case Nil
  then show ?case by simp
next
  case (Cons op ops)
  from engine_step_total [OF Cons.prems, of op] obtain h1 e1 where
    "engine_step op (h, e) = Some (h1, e1)" "books_inv h1 (order_books e1)" by blast
  with Cons.IH [of h1 e1] show ?case by simp
qed

subsection \<open>The trade counter\<close>

text \<open>
  C10. Every sequence of engine operations (start, stop, submissions, cancels and
  modifications, batches of the matching and market-data workers, the throughput calculation
  of the metrics worker, a reset of the metrics) on a new engine returns, and after it the
  counter \<open>trades_executed\<close> reads 0, and so does \<open>trades_per_second\<close>.
\<close>

theorem trades_executed_stays_zero:
  "\<exists>h e. engine_run ops (h0, OrderMatchingEngine_ctor order_storage market_data_storage) = Some (h, e)
     \<and> trades_executed (metrics e) = 0 \<and> trades_per_second (metrics e) = 0"
proof -
  let ?e0 = "OrderMatchingEngine_ctor order_storage market_data_storage"
  have "books_inv h0 (order_books ?e0)"
    by (simp add: books_inv_def OrderMatchingEngine_ctor_def)
  from engine_run_total [OF this, of ops] obtain h e where
    r: "engine_run ops (h0, ?e0) = Some (h, e)" by blast
  have "counter_idle ?e0"
    by (simp add: counter_idle_def OrderMatchingEngine_ctor_def PerformanceMetrics_init_def)
  from engine_run_idle [OF r this] r show ?thesis by (auto simp: counter_idle_def)
qed

lemmas engine_eval =
  engine_run.simps engine_step.simps engine_start_def submit_order_def process_order_batch_def
  process_orders.simps collect_batch.simps try_push_def try_pop_def buffer_index BUFFER_SIZE_def
  get_or_create_order_book_def update_performance_metrics_def calculate_throughput_metrics_def
  OrderMatchingEngine_ctor_def LockFreeRingBuffer_ctor_def PerformanceMetrics_init_def UINT64_MAX_def

text \<open>
  C10, witness: two crossing orders go through the ring and a batch; the book of the symbol
  has recorded one trade, the counter of the engine still reads 0.
\<close>

theorem trades_executed_stays_zero_witness:
  "\<exists>h e book. engine_run [Start True, SubmitOrder (Some 1) 5, SubmitOrder (Some 2) 7, ProcessOrderBatch,
                   CalculateThroughputMetrics]
        (example_store, OrderMatchingEngine_ctor (\<lambda>_. 0)
           (\<lambda>_. \<lparr>md_symbol = [], md_type = TICK, trade_price = 0, trade_quantity = 0, trade_id = 0\<rparr>))
       = Some (h, e)
     \<and> order_books e ''AAPL'' = Some book \<and> get_trade_count book = 1
     \<and> orders_processed (metrics e) = 2 \<and> orders_per_second (metrics e) = 2
     \<and> trades_executed (metrics e) = 0 \<and> trades_per_second (metrics e) = 0"
proof -
  let ?ops = "[Start True, SubmitOrder (Some 1) 5, SubmitOrder (Some 2) 7, ProcessOrderBatch,
                   CalculateThroughputMetrics]"
  let ?s = "(example_store, OrderMatchingEngine_ctor (\<lambda>_. 0)
           (\<lambda>_. \<lparr>md_symbol = [], md_type = TICK, trade_price = 0, trade_quantity = 0, trade_id = 0\<rparr>))"
  have "\<exists>h e book. engine_run ?ops ?s = Some (h, e) \<and> order_books e ''AAPL'' = Some book
          \<and> get_trade_count book = 1 \<and> orders_processed (metrics e) = 2
          \<and> orders_per_second (metrics e) = 2"
    by (simp add: engine_eval book_eval get_trade_count_def)
  then obtain h e book where r: "engine_run ?ops ?s = Some (h, e)" "order_books e ''AAPL'' = Some book"
          "get_trade_count book = 1" "orders_processed (metrics e) = 2"
          "orders_per_second (metrics e) = 2" by blast
  from trades_executed_stays_zero [of ?ops example_store "\<lambda>_. 0"
      "\<lambda>_. \<lparr>md_symbol = [], md_type = TICK, trade_price = 0, trade_quantity = 0, trade_id = 0\<rparr>"] r(1)
  have "trades_executed (metrics e) = 0 \<and> trades_per_second (metrics e) = 0" by simp
  with r show ?thesis by blast
qed

end
